theory Spec2Isabelle
  imports Complex_Main "HOL-Library.Log_Nat"
begin

section \<open>Numbers\<close>

text \<open>
  The services compute on JavaScript numbers. In this and the next sections a finite
  number is modelled by its real value and the operations are exact: rounding, overflow
  to an infinity and the 32-bit storage of \<open>Float32Array\<close> are left out, which the
  properties of the matcher and of the fusion proved from these definitions do not depend
  on. The one non-finite value kept is \<open>NaN\<close>, which arises when a typed array is read
  past its end: the read gives \<open>undefined\<close>, and arithmetic on \<open>undefined\<close> gives
  \<open>NaN\<close>. The section on double-precision arithmetic follows the rounded computation
  where the computed value itself is the subject.
\<close>

datatype number = Num real | NaN

text \<open>\<open>a[i]\<close> on a \<open>Float32Array\<close>, used as an operand of arithmetic.\<close>

definition elem :: "real list \<Rightarrow> nat \<Rightarrow> number" where
  "elem a i = (if i < length a then Num (a ! i) else NaN)"

fun num_add :: "number \<Rightarrow> number \<Rightarrow> number" where
  "num_add (Num p) (Num q) = Num (p + q)"
| "num_add _ _ = NaN"

fun num_mul :: "number \<Rightarrow> number \<Rightarrow> number" where
  "num_mul (Num p) (Num q) = Num (p * q)"
| "num_mul _ _ = NaN"

text \<open>\<open>Math.sqrt\<close>: \<open>NaN\<close> on a negative argument and on \<open>NaN\<close>.\<close>

fun num_sqrt :: "number \<Rightarrow> number" where
  "num_sqrt (Num p) = (if p < 0 then NaN else Num (sqrt p))"
| "num_sqrt NaN = NaN"

text \<open>
  Division of numbers. A zero divisor (which in JavaScript gives an infinity, or \<open>NaN\<close>
  for \<open>0 / 0\<close>) is outside the modelled values; the only division of numbers below is
  guarded so that its divisor is never zero (lemma \<open>insight_divisor_nonzero\<close>).
\<close>

fun num_div :: "number \<Rightarrow> number \<Rightarrow> number" where
  "num_div (Num p) (Num q) = (if q = 0 then NaN else Num (p / q))"
| "num_div _ _ = NaN"

section \<open>Geometric overlap: \<open>getIoU\<close>\<close>

text \<open>
  A face-api box; the fields \<open>x\<close>, \<open>y\<close>, \<open>width\<close>, \<open>height\<close> of the source carry the
  prefix \<open>box_\<close> here.
\<close>

record Box =
  box_x :: real
  box_y :: real
  box_width :: real
  box_height :: real

definition getIoU :: "Box \<Rightarrow> Box \<Rightarrow> real" where
  "getIoU box1 box2 =
     (let x1 = max (box_x box1) (box_x box2);
          y1 = max (box_y box1) (box_y box2);
          x2 = min (box_x box1 + box_width box1) (box_x box2 + box_width box2);
          y2 = min (box_y box1 + box_height box1) (box_y box2 + box_height box2);
          intersectionArea = max 0 (x2 - x1) * max 0 (y2 - y1);
          box1Area = box_width box1 * box_height box1;
          box2Area = box_width box2 * box_height box2
      in if box1Area + box2Area - intersectionArea = 0 then 0
         else intersectionArea / (box1Area + box2Area - intersectionArea))"

text \<open>Two rectangles have no overlap when an axis separates them.\<close>

definition no_overlap :: "Box \<Rightarrow> Box \<Rightarrow> bool" where
  "no_overlap a b \<longleftrightarrow>
     box_x a + box_width a \<le> box_x b \<or> box_x b + box_width b \<le> box_x a \<or>
     box_y a + box_height a \<le> box_y b \<or> box_y b + box_height b \<le> box_y a"

definition area :: "Box \<Rightarrow> real" where
  "area a = box_width a * box_height a"

section \<open>Similarity\<close>

text \<open>
  \<open>FaceRecognitionService.computeCosineSimilarity\<close>: the loop runs over the indices of
  \<open>descriptor1\<close> and accumulates the products.
\<close>

definition computeCosineSimilarity :: "real list \<Rightarrow> real list \<Rightarrow> number" where
  "computeCosineSimilarity descriptor1 descriptor2 =
     foldl (\<lambda>dotProduct i. num_add dotProduct (num_mul (elem descriptor1 i) (elem descriptor2 i)))
       (Num 0) [0..<length descriptor1]"

text \<open>
  \<open>InsightFaceService.computeCosineSimilarity\<close>: one loop accumulates the dot product
  and both squared norms.
\<close>

definition insight_step ::
  "real list \<Rightarrow> real list \<Rightarrow> number \<times> number \<times> number \<Rightarrow> nat \<Rightarrow> number \<times> number \<times> number" where
  "insight_step descriptor1 descriptor2 acc i =
     (case acc of (dotProduct, norm1, norm2) \<Rightarrow>
        (num_add dotProduct (num_mul (elem descriptor1 i) (elem descriptor2 i)),
         num_add norm1 (num_mul (elem descriptor1 i) (elem descriptor1 i)),
         num_add norm2 (num_mul (elem descriptor2 i) (elem descriptor2 i))))"

definition insight_sums :: "real list \<Rightarrow> real list \<Rightarrow> number \<times> number \<times> number" where
  "insight_sums descriptor1 descriptor2 =
     foldl (insight_step descriptor1 descriptor2) (Num 0, Num 0, Num 0) [0..<length descriptor1]"

definition insight_computeCosineSimilarity :: "real list \<Rightarrow> real list \<Rightarrow> number" where
  "insight_computeCosineSimilarity descriptor1 descriptor2 =
     (case insight_sums descriptor1 descriptor2 of (dotProduct, norm1, norm2) \<Rightarrow>
        if norm1 = Num 0 \<or> norm2 = Num 0 then Num 0
        else num_div dotProduct (num_mul (num_sqrt norm1) (num_sqrt norm2)))"

text \<open>The mathematical quantities the specification speaks of.\<close>

definition dot :: "real list \<Rightarrow> real list \<Rightarrow> real" where
  "dot u v = (\<Sum>i<length u. u ! i * v ! i)"

definition norm2 :: "real list \<Rightarrow> real" where
  "norm2 u = sqrt (dot u u)"

section \<open>Identity matching\<close>

text \<open>
  A gallery entry (\<open>LabeledFaceDescriptors\<close>) and a result of the frame matcher. The
  result's fields \<open>label\<close>, \<open>score\<close>, \<open>descriptor\<close> carry the prefix \<open>r_\<close>.
\<close>

record labeled =
  label :: string
  descriptors :: "real list list"

record result =
  r_label :: string
  r_score :: real
  r_descriptor :: "real list"

text \<open>The label given to a detection without a match; the specification's sentinel.\<close>

definition unknown :: string where
  "unknown = ''unknown''"

text \<open>
  The search state of one detection: \<open>maxSimilarity\<close>, and \<open>bestMatch\<close> together with
  \<open>bestLabeledDesc\<close>, which the source sets in the same assignment. The entry is kept as
  its index in the pool: the entries are distinct objects, so \<open>indexOf\<close> finds the entry
  where the scan met it.
\<close>

type_synonym best = "(string \<times> real \<times> nat) option"

text \<open>The body of the innermost loop; a comparison with \<open>NaN\<close> is false.\<close>

definition tryPhoto :: "real list \<Rightarrow> string \<Rightarrow> nat \<Rightarrow> real \<times> best \<Rightarrow> real list \<Rightarrow> real \<times> best" where
  "tryPhoto d lab idx st studentDescriptor =
     (case computeCosineSimilarity d studentDescriptor of
        NaN \<Rightarrow> st
      | Num similarity \<Rightarrow>
          if similarity > fst st then (similarity, Some (lab, similarity, idx)) else st)"

fun scanGallery :: "real list \<Rightarrow> nat \<Rightarrow> labeled list \<Rightarrow> real \<times> best \<Rightarrow> real \<times> best" where
  "scanGallery d idx [] st = st"
| "scanGallery d idx (labeledDesc # rest) st =
     scanGallery d (Suc idx) rest (foldl (tryPhoto d (label labeledDesc) idx) st (descriptors labeledDesc))"

definition bestAmong :: "real list \<Rightarrow> labeled list \<Rightarrow> best" where
  "bestAmong d available = snd (scanGallery d 0 available (- 1, None))"

text \<open>\<open>splice(index, 1)\<close>.\<close>

definition splice1 :: "nat \<Rightarrow> 'a list \<Rightarrow> 'a list" where
  "splice1 i xs = take i xs @ drop (Suc i) xs"

text \<open>
  The loop over the detections. The state is the pool of available entries, the set
  \<open>usedLabels\<close> (which the source mutates, so it is returned) and the results so far.
\<close>

fun matchLoop ::
  "labeled list \<Rightarrow> string set \<Rightarrow> result list \<Rightarrow> real list list \<Rightarrow> result list \<times> string set" where
  "matchLoop available usedLabels results [] = (results, usedLabels)"
| "matchLoop available usedLabels results (d # ds) =
     (case bestAmong d available of
        Some (lab, s, idx) \<Rightarrow>
          matchLoop (splice1 idx available) (insert lab usedLabels)
            (results @ [\<lparr>r_label = lab, r_score = s, r_descriptor = d\<rparr>]) ds
      | None \<Rightarrow>
          matchLoop available usedLabels
            (results @ [\<lparr>r_label = unknown, r_score = 0, r_descriptor = d\<rparr>]) ds)"

definition findBestMatchesForFrame ::
  "labeled list \<Rightarrow> real list list \<Rightarrow> string set \<Rightarrow> result list \<times> string set" where
  "findBestMatchesForFrame labeledDescriptors ds usedLabels =
     matchLoop (filter (\<lambda>ld. label ld \<notin> usedLabels) labeledDescriptors) usedLabels [] ds"

text \<open>The labels of the results other than the sentinel, in result order.\<close>

definition matchedLabels :: "result list \<Rightarrow> string list" where
  "matchedLabels rs = filter (\<lambda>l. l \<noteq> unknown) (map r_label rs)"

text \<open>\<open>InsightFaceService.findBestMatch\<close>: the state is \<open>(bestLabel, maxSimilarity)\<close>.\<close>

definition insight_tryPhoto :: "real list \<Rightarrow> string \<Rightarrow> string \<times> real \<Rightarrow> real list \<Rightarrow> string \<times> real" where
  "insight_tryPhoto q lab st d =
     (case insight_computeCosineSimilarity q d of
        NaN \<Rightarrow> st
      | Num similarity \<Rightarrow> if similarity > snd st then (lab, similarity) else st)"

definition insight_findBestMatch :: "labeled list \<Rightarrow> real list \<Rightarrow> string \<times> real" where
  "insight_findBestMatch labeledDescriptors q =
     (if length labeledDescriptors = 0 then (unknown, 0)
      else foldl (\<lambda>st labeledDesc. foldl (insight_tryPhoto q (label labeledDesc)) st (descriptors labeledDesc))
             (unknown, - 1) labeledDescriptors)"

section \<open>Detection fusion\<close>

text \<open>
  A detection with its box and score (\<open>d.detection.box\<close>, \<open>d.detection.score\<close>), its
  descriptor and the flag \<open>isManual\<close> of an operator-triggered detection. \<open>indexOf\<close>
  compares object references: \<open>oid\<close> is the identity of the object, so that two
  detections are the same object exactly when they are equal as records.
\<close>

record detection =
  det_box :: Box
  det_score :: real
  det_descriptor :: "real list"
  isManual :: bool
  oid :: nat

fun indexOf :: "'a list \<Rightarrow> 'a \<Rightarrow> nat option" where
  "indexOf [] a = None"
| "indexOf (b # bs) a = (if b = a then Some 0 else map_option Suc (indexOf bs a))"

text \<open>
  \<open>mergeDetections\<close>: the inner loop over \<open>detections1\<close> for one \<open>det2\<close>, returning
  \<open>isOverlapping\<close> and the array \<open>merged\<close>; it stops at the first overlap.
\<close>

fun scanStage1 :: "detection list \<Rightarrow> detection \<Rightarrow> detection list \<Rightarrow> bool \<times> detection list" where
  "scanStage1 [] det2 merged = (False, merged)"
| "scanStage1 (det1 # rest) det2 merged =
     (if getIoU (det_box det1) (det_box det2) > 0.3 then
        (True,
         if det_score det2 > det_score det1 then
           (case indexOf merged det1 of Some i \<Rightarrow> merged[i := det2] | None \<Rightarrow> merged)
         else merged)
      else scanStage1 rest det2 merged)"

fun mergeLoop :: "detection list \<Rightarrow> detection list \<Rightarrow> detection list \<Rightarrow> detection list" where
  "mergeLoop detections1 merged [] = merged"
| "mergeLoop detections1 merged (det2 # rest) =
     (case scanStage1 detections1 det2 merged of
        (isOverlapping, merged') \<Rightarrow>
          mergeLoop detections1 (if isOverlapping then merged' else merged' @ [det2]) rest)"

definition mergeDetections :: "detection list \<Rightarrow> detection list \<Rightarrow> detection list" where
  "mergeDetections detections1 detections2 = mergeLoop detections1 detections1 detections2"

text \<open>
  \<open>removeDuplicateDetections\<close>: the inner loop over \<open>filtered\<close> for one detection,
  returning \<open>keep\<close> and the array \<open>filtered\<close>; it stops at the first overlap.
\<close>

fun scanFiltered :: "detection \<Rightarrow> real \<Rightarrow> detection list \<Rightarrow> bool \<times> detection list" where
  "scanFiltered d iouThreshold [] = (True, [])"
| "scanFiltered d iouThreshold (f # fs) =
     (if getIoU (det_box d) (det_box f) > iouThreshold then
        (False, (if det_score d > det_score f then d else f) # fs)
      else (case scanFiltered d iouThreshold fs of (keep, fs') \<Rightarrow> (keep, f # fs')))"

fun dedupLoop :: "real \<Rightarrow> detection list \<Rightarrow> detection list \<Rightarrow> detection list" where
  "dedupLoop iouThreshold filtered [] = filtered"
| "dedupLoop iouThreshold filtered (d # ds) =
     (case scanFiltered d iouThreshold filtered of
        (keep, filtered') \<Rightarrow>
          dedupLoop iouThreshold (if keep then filtered' @ [d] else filtered') ds)"

definition removeDuplicateDetections :: "detection list \<Rightarrow> real \<Rightarrow> detection list" where
  "removeDuplicateDetections detections iouThreshold =
     (if length detections \<le> 1 then detections else dedupLoop iouThreshold [] detections)"

text \<open>
  The fusion of \<open>detectAndRecognize\<close>, from the results of the two detector stages to
  the returned list. A stage that throws is caught and contributes nothing (\<open>None\<close>).
\<close>

definition detectAndRecognize ::
  "detection list option \<Rightarrow> detection list option \<Rightarrow> detection list \<Rightarrow> real \<Rightarrow> detection list" where
  "detectAndRecognize stage1Detections stage2Detections manualDetections iouThreshold =
     (let allDetections = (case stage1Detections of None \<Rightarrow> [] | Some s1 \<Rightarrow> s1);
          allDetections = (case stage2Detections of None \<Rightarrow> allDetections
                           | Some s2 \<Rightarrow> mergeDetections allDetections s2);
          allDetections = allDetections @ manualDetections
      in removeDuplicateDetections allDetections iouThreshold)"

text \<open>
  The earlier \<open>detectAndRecognize\<close> (and \<open>analyzeFrame\<close>) of the repository: automatic
  detections that overlap a manual one are filtered out, then the manual ones are
  appended.
\<close>

definition finalDetections :: "detection list \<Rightarrow> detection list \<Rightarrow> detection list" where
  "finalDetections resizedAutoDetections manualDetections =
     filter (\<lambda>auto. \<not> list_ex (\<lambda>manual. getIoU (det_box auto) (det_box manual) > 0.3) manualDetections)
       resizedAutoDetections @ manualDetections"


section \<open>The specification's score\<close>

text \<open>
  The score as the specification words it: the dot product over the product of the
  norms, and 0 when either norm is 0. The two scorers of the source are compared with it.
\<close>

definition cosine :: "real list \<Rightarrow> real list \<Rightarrow> real" where
  "cosine u v = (if norm2 u = 0 \<or> norm2 v = 0 then 0 else dot u v / (norm2 u * norm2 v))"

section \<open>Temporal aggregation\<close>

text \<open>
  The code of the Temporal Aggregator is not among the sources, which hold only its
  caller's remark that the match results are attached for the accumulator, and the
  drawing of its results. Its window and its verdict are modelled from the
  specification. A frame is the list of the match results of one frame.
\<close>

type_synonym frame = "result list"

record verdict =
  v_label :: string
  observedFrameCount :: nat
  windowFrameCount :: nat
  meanScore :: real
  present :: bool

text \<open>
  Modelled from the spec: the push of a frame's results into the rolling window of size
  \<open>N\<close>, which is missing from the sources. The window is the list of the per-frame
  result sets, oldest first; a push onto a full window evicts the oldest frame.
\<close>

definition push :: "nat \<Rightarrow> frame list \<Rightarrow> frame \<Rightarrow> frame list" where
  "push N window f = (if N \<le> length window then tl window @ [f] else window @ [f])"

text \<open>
  Modelled from the spec: the score of a label in one frame, part of the missing verdict
  computation. A frame holds a label at most once; the first result with the label gives
  the frame's score, and a frame without the label gives none.
\<close>

definition frameScore :: "string \<Rightarrow> frame \<Rightarrow> real list" where
  "frameScore l f = (case List.find (\<lambda>r. r_label r = l) f of None \<Rightarrow> [] | Some r \<Rightarrow> [r_score r])"

text \<open>
  Modelled from the spec: the verdict of a label over the window, from the missing
  verdict computation. It counts the frames in which the label was matched, takes the
  mean of the scores of these frames, and declares the label present when the ratio of
  the count to the number of frames in the window reaches the threshold \<open>T\<close>.
\<close>

definition verdictFor :: "real \<Rightarrow> frame list \<Rightarrow> string \<Rightarrow> verdict" where
  "verdictFor T window l =
     (let scores = concat (map (frameScore l) window)
      in \<lparr>v_label = l,
          observedFrameCount = length scores,
          windowFrameCount = length window,
          meanScore = (if length scores = 0 then 0 else sum_list scores / real (length scores)),
          present = (real (length scores) / real (length window) \<ge> T)\<rparr>)"

text \<open>
  Modelled from the spec: the labels that get a verdict in the missing verdict
  computation, those of the gallery and the matched labels seen in the window.
\<close>

definition labelsSeen :: "string list \<Rightarrow> frame list \<Rightarrow> string list" where
  "labelsSeen galleryLabels window = remdups (galleryLabels @ concat (map matchedLabels window))"

text \<open>
  Modelled from the spec: the missing verdict computation over the window; an empty
  window yields an empty verdict set.
\<close>

definition verdicts :: "real \<Rightarrow> string list \<Rightarrow> frame list \<Rightarrow> verdict list" where
  "verdicts T galleryLabels window =
     (if window = [] then [] else map (verdictFor T window) (labelsSeen galleryLabels window))"

text \<open>
  Modelled from the spec: the count of unidentified presence events of the missing
  aggregator; the results with the sentinel are counted, not attributed to a label.
\<close>

definition unidentified :: "frame list \<Rightarrow> nat" where
  "unidentified window = length (filter (\<lambda>r. r_label r = unknown) (concat window))"

section \<open>Double-precision arithmetic\<close>

text \<open>
  The numbers of the source are IEEE 754 doubles. The definitions above compute in exact
  arithmetic, which is what the structural properties of the matcher and of the fusion
  need. Where a property is about the computed value itself, the computation is followed
  in double precision: every arithmetic operation is rounded to the nearest double, ties
  to even, with subnormal numbers and overflow to an infinity. The two zeros are not
  told apart; the code below only compares with zero.

  \<open>pow2 e\<close> is the power of two of an integer exponent, \<open>rne\<close> rounds to the nearest
  integer with ties to even, \<open>expo x\<close> is the binary exponent of a positive number, and
  \<open>fl\<close> rounds a real number to 53 significant bits, the last bit no finer than
  \<open>2\<^sup>-\<^sup>1\<^sup>0\<^sup>7\<^sup>4\<close>.
\<close>

definition pow2 :: "int \<Rightarrow> real" where
  "pow2 e = (if 0 \<le> e then 2 ^ nat e else 1 / 2 ^ nat (- e))"

definition rne :: "real \<Rightarrow> int" where
  "rne x = (let f = \<lfloor>x\<rfloor>; r = x - of_int f
            in if r < 1 / 2 then f else if 1 / 2 < r then f + 1 else if even f then f else f + 1)"

definition expo :: "real \<Rightarrow> int" where
  "expo x = (if 1 \<le> x then bitlen \<lfloor>x\<rfloor> - 1 else - bitlen (\<lceil>1 / x\<rceil> - 1))"

definition fl :: "real \<Rightarrow> real" where
  "fl x = (let q = max (expo \<bar>x\<bar> - 52) (- 1074)
           in sgn x * (of_int (rne (\<bar>x\<bar> / pow2 q)) * pow2 q))"

text \<open>A double: a finite value, an infinity or \<open>NaN\<close>.\<close>

datatype double = Finite real | PosInf | NegInf | NotANumber

text \<open>The result of an operation whose exact value is \<open>r\<close>.\<close>

definition to_double :: "real \<Rightarrow> double" where
  "to_double r =
     (let v = fl r
      in if 2 ^ 1024 \<le> v then PosInf else if v \<le> - (2 ^ 1024) then NegInf else Finite v)"

fun d_neg :: "double \<Rightarrow> double" where
  "d_neg (Finite a) = Finite (- a)"
| "d_neg PosInf = NegInf"
| "d_neg NegInf = PosInf"
| "d_neg NotANumber = NotANumber"

fun d_add :: "double \<Rightarrow> double \<Rightarrow> double" where
  "d_add (Finite a) (Finite b) = to_double (a + b)"
| "d_add NotANumber _ = NotANumber"
| "d_add _ NotANumber = NotANumber"
| "d_add PosInf NegInf = NotANumber"
| "d_add NegInf PosInf = NotANumber"
| "d_add PosInf _ = PosInf"
| "d_add _ PosInf = PosInf"
| "d_add NegInf _ = NegInf"
| "d_add _ NegInf = NegInf"

definition d_sub :: "double \<Rightarrow> double \<Rightarrow> double" where
  "d_sub a b = d_add a (d_neg b)"

fun d_mul :: "double \<Rightarrow> double \<Rightarrow> double" where
  "d_mul (Finite a) (Finite b) = to_double (a * b)"
| "d_mul NotANumber _ = NotANumber"
| "d_mul _ NotANumber = NotANumber"
| "d_mul (Finite a) PosInf = (if a = 0 then NotANumber else if 0 < a then PosInf else NegInf)"
| "d_mul (Finite a) NegInf = (if a = 0 then NotANumber else if 0 < a then NegInf else PosInf)"
| "d_mul PosInf (Finite b) = (if b = 0 then NotANumber else if 0 < b then PosInf else NegInf)"
| "d_mul NegInf (Finite b) = (if b = 0 then NotANumber else if 0 < b then NegInf else PosInf)"
| "d_mul PosInf PosInf = PosInf"
| "d_mul NegInf NegInf = PosInf"
| "d_mul PosInf NegInf = NegInf"
| "d_mul NegInf PosInf = NegInf"

text \<open>
  Division by a divisor other than zero. With a zero divisor JavaScript returns an
  infinity whose sign depends on the sign of the zero, or \<open>NaN\<close>; \<open>getIoU\<close> returns
  before it would divide by zero, so that case, given as \<open>NotANumber\<close> here, is never
  reached.
\<close>

fun d_div :: "double \<Rightarrow> double \<Rightarrow> double" where
  "d_div (Finite a) (Finite b) = (if b = 0 then NotANumber else to_double (a / b))"
| "d_div NotANumber _ = NotANumber"
| "d_div _ NotANumber = NotANumber"
| "d_div (Finite a) _ = Finite 0"
| "d_div PosInf (Finite b) = (if b = 0 then NotANumber else if 0 < b then PosInf else NegInf)"
| "d_div NegInf (Finite b) = (if b = 0 then NotANumber else if 0 < b then NegInf else PosInf)"
| "d_div _ _ = NotANumber"

text \<open>\<open>Math.max\<close> and \<open>Math.min\<close>.\<close>

fun d_max :: "double \<Rightarrow> double \<Rightarrow> double" where
  "d_max (Finite a) (Finite b) = Finite (max a b)"
| "d_max NotANumber _ = NotANumber"
| "d_max _ NotANumber = NotANumber"
| "d_max PosInf _ = PosInf"
| "d_max _ PosInf = PosInf"
| "d_max NegInf b = b"
| "d_max a NegInf = a"

fun d_min :: "double \<Rightarrow> double \<Rightarrow> double" where
  "d_min (Finite a) (Finite b) = Finite (min a b)"
| "d_min NotANumber _ = NotANumber"
| "d_min _ NotANumber = NotANumber"
| "d_min NegInf _ = NegInf"
| "d_min _ NegInf = NegInf"
| "d_min PosInf b = b"
| "d_min a PosInf = a"

text \<open>
  \<open>getIoU\<close> as the source computes it, operation by operation, on boxes whose fields
  are finite doubles.
\<close>

definition getIoU_double :: "Box \<Rightarrow> Box \<Rightarrow> double" where
  "getIoU_double box1 box2 =
     (let x1 = d_max (Finite (box_x box1)) (Finite (box_x box2));
          y1 = d_max (Finite (box_y box1)) (Finite (box_y box2));
          x2 = d_min (d_add (Finite (box_x box1)) (Finite (box_width box1)))
                     (d_add (Finite (box_x box2)) (Finite (box_width box2)));
          y2 = d_min (d_add (Finite (box_y box1)) (Finite (box_height box1)))
                     (d_add (Finite (box_y box2)) (Finite (box_height box2)));
          intersectionArea =
            d_mul (d_max (Finite 0) (d_sub x2 x1)) (d_max (Finite 0) (d_sub y2 y1));
          box1Area = d_mul (Finite (box_width box1)) (Finite (box_height box1));
          box2Area = d_mul (Finite (box_width box2)) (Finite (box_height box2))
      in if d_sub (d_add box1Area box2Area) intersectionArea = Finite 0 then Finite 0
         else d_div intersectionArea (d_sub (d_add box1Area box2Area) intersectionArea))"

text \<open>
  The rounded intersection area and the rounded denominator of \<open>getIoU\<close>, as real
  numbers; they are the values of the source's \<open>intersectionArea\<close> and of its
  denominator as long as no operation overflows.
\<close>

definition inter_fl :: "Box \<Rightarrow> Box \<Rightarrow> real" where
  "inter_fl box1 box2 =
     fl (max 0 (fl (min (fl (box_x box1 + box_width box1)) (fl (box_x box2 + box_width box2))
                    - max (box_x box1) (box_x box2)))
         * max 0 (fl (min (fl (box_y box1 + box_height box1)) (fl (box_y box2 + box_height box2))
                      - max (box_y box1) (box_y box2))))"

definition denom_fl :: "Box \<Rightarrow> Box \<Rightarrow> real" where
  "denom_fl box1 box2 =
     fl (fl (fl (box_width box1 * box_height box1) + fl (box_width box2 * box_height box2))
         - inter_fl box1 box2)"

text \<open>
  A box of doubles of moderate size: every field is a double of magnitude at most
  \<open>2\<^sup>5\<^sup>0\<^sup>0\<close>, so that no operation of \<open>getIoU\<close> overflows.
\<close>

definition moderate :: "real \<Rightarrow> bool" where
  "moderate v \<longleftrightarrow> fl v = v \<and> \<bar>v\<bar> \<le> pow2 500"

definition moderate_box :: "Box \<Rightarrow> bool" where
  "moderate_box b \<longleftrightarrow>
     moderate (box_x b) \<and> moderate (box_y b) \<and> moderate (box_width b) \<and> moderate (box_height b)"

text \<open>
  A box of whole numbers of magnitude at most \<open>2\<^sup>2\<^sup>4\<close>, as a box in whole pixels is: every
  sum, difference and product of \<open>getIoU\<close> is then a whole number below \<open>2\<^sup>5\<^sup>3\<close>, hence
  exact.
\<close>

definition whole :: "real \<Rightarrow> bool" where
  "whole v \<longleftrightarrow> of_int \<lfloor>v\<rfloor> = v \<and> \<bar>v\<bar> \<le> 2 ^ 24"

definition whole_box :: "Box \<Rightarrow> bool" where
  "whole_box b \<longleftrightarrow>
     whole (box_x b) \<and> whole (box_y b) \<and> whole (box_width b) \<and> whole (box_height b)"

section \<open>Properties of \<open>getIoU\<close> in exact arithmetic\<close>

lemma getIoU_sym: "getIoU a b = getIoU b a"
  by (simp add: getIoU_def Let_def max.commute min.commute add.commute)

lemma inter_le_first:
  fixes xa wa xb wb ya ha yb hb :: real
  assumes "0 \<le> wa" "0 \<le> ha"
  shows "max 0 (min (xa + wa) (xb + wb) - max xa xb) * max 0 (min (ya + ha) (yb + hb) - max ya yb)
           \<le> wa * ha"
proof (rule mult_mono)
  show "max 0 (min (xa + wa) (xb + wb) - max xa xb) \<le> wa" using assms by auto
  show "max 0 (min (ya + ha) (yb + hb) - max ya yb) \<le> ha" using assms by auto
  show "0 \<le> wa" by fact
  show "0 \<le> max 0 (min (ya + ha) (yb + hb) - max ya yb)" by simp
qed

lemma inter_nonneg:
  fixes p q :: real
  shows "0 \<le> max 0 p * max 0 q"
  by simp

lemma getIoU_range:
  assumes "0 < box_width a" "0 < box_height a" "0 < box_width b" "0 < box_height b"
  shows "0 \<le> getIoU a b \<and> getIoU a b \<le> 1"
proof -
  define I where "I = max 0 (min (box_x a + box_width a) (box_x b + box_width b) - max (box_x a) (box_x b))
     * max 0 (min (box_y a + box_height a) (box_y b + box_height b) - max (box_y a) (box_y b))"
  have I0: "0 \<le> I" unfolding I_def by (rule inter_nonneg)
  have Ia: "I \<le> box_width a * box_height a" unfolding I_def
    using assms by (intro inter_le_first) auto
  have Ib: "I \<le> box_width b * box_height b"
  proof -
    have "max 0 (min (box_x b + box_width b) (box_x a + box_width a) - max (box_x b) (box_x a))
     * max 0 (min (box_y b + box_height b) (box_y a + box_height a) - max (box_y b) (box_y a))
       \<le> box_width b * box_height b"
      using assms by (intro inter_le_first) auto
    then show ?thesis unfolding I_def by (simp add: min.commute max.commute)
  qed
  have pb: "0 < box_width b * box_height b" using assms by simp
  have g: "getIoU a b = (if box_width a * box_height a + box_width b * box_height b - I = 0 then 0
        else I / (box_width a * box_height a + box_width b * box_height b - I))"
    by (simp add: getIoU_def Let_def I_def)
  have den: "0 < box_width a * box_height a + box_width b * box_height b - I" using Ia pb by linarith
  have le: "I \<le> box_width a * box_height a + box_width b * box_height b - I"
    using Ia Ib pb by linarith
  show ?thesis using g den I0 le by simp
qed

lemma getIoU_self:
  assumes "0 < box_width a" "0 < box_height a"
  shows "getIoU a a = 1"
proof -
  have "0 < box_width a * box_height a" using assms by simp
  then show ?thesis using assms by (simp add: getIoU_def Let_def)
qed

lemma getIoU_no_overlap: "no_overlap a b \<Longrightarrow> getIoU a b = 0"
  unfolding no_overlap_def getIoU_def Let_def
  by (auto simp: max_def min_def)

lemma getIoU_zero_area: "area a = 0 \<Longrightarrow> area b = 0 \<Longrightarrow> getIoU a b = 0"
  unfolding area_def getIoU_def Let_def
  by (auto simp: max_def min_def)

section \<open>Rounding to the nearest double\<close>

lemma pow2_powr: "pow2 e = 2 powr of_int e"
  by (simp add: pow2_def powr_real_of_int divide_inverse)

lemma pow2_pos [simp]: "0 < pow2 e"
  by (simp add: pow2_powr)

lemma pow2_nonneg [simp]: "0 \<le> pow2 e"
  using pow2_pos [of e] by linarith

lemma pow2_not_neg [simp]: "\<not> pow2 e < 0"
  using pow2_pos [of e] by linarith

lemma pow2_ne0 [simp]: "pow2 e \<noteq> 0"
  using pow2_pos [of e] by linarith

lemma pow2_add: "pow2 (a + b) = pow2 a * pow2 b"
  by (simp add: pow2_powr powr_add)

lemma pow2_diff: "pow2 (a - b) = pow2 a / pow2 b"
  by (simp add: pow2_powr powr_diff)

lemma pow2_mono: "a \<le> b \<Longrightarrow> pow2 a \<le> pow2 b"
  by (simp add: pow2_powr)

lemma pow2_less_iff: "pow2 a < pow2 b \<longleftrightarrow> a < b"
  by (simp add: pow2_powr)

lemma pow2_le_iff: "pow2 a \<le> pow2 b \<longleftrightarrow> a \<le> b"
  by (simp add: pow2_powr)

lemma pow2_minus: "pow2 (- a) = 1 / pow2 a"
  by (simp add: pow2_powr powr_minus divide_inverse)

lemma pow2_nat: "0 \<le> e \<Longrightarrow> pow2 e = of_int (2 ^ nat e)"
  by (simp add: pow2_def)

lemma pow2_0 [simp]: "pow2 0 = 1"
  by (simp add: pow2_def)

lemma expo_bounds:
  assumes "0 < x"
  shows "pow2 (expo x) \<le> x \<and> x < pow2 (expo x + 1)"
proof (cases "1 \<le> x")
  case True
  define n where "n = \<lfloor>x\<rfloor>"
  have n: "0 < n" unfolding n_def using True by simp
  have b: "2 ^ nat (bitlen n - 1) \<le> n" "n < 2 ^ nat (bitlen n)" using bitlen_bounds [OF n] by auto
  have k: "1 \<le> bitlen n" using n by (simp add: bitlen_alt_def)
  have e: "expo x = bitlen n - 1" using True by (simp add: expo_def n_def)
  have "real_of_int (2 ^ nat (bitlen n - 1)) \<le> of_int n" using b(1) by (simp only: of_int_le_iff)
  also have "\<dots> \<le> x" unfolding n_def by simp
  finally have "real_of_int (2 ^ nat (bitlen n - 1)) \<le> x" .
  moreover have "pow2 (bitlen n - 1) = of_int (2 ^ nat (bitlen n - 1))" using k by (intro pow2_nat) simp
  ultimately have lo: "pow2 (expo x) \<le> x" unfolding e by linarith
  have "n + 1 \<le> 2 ^ nat (bitlen n)" using b(2) by simp
  then have "real_of_int (n + 1) \<le> of_int (2 ^ nat (bitlen n))" by (simp only: of_int_le_iff)
  moreover have "x < of_int (n + 1)" unfolding n_def by linarith
  ultimately have "x < of_int (2 ^ nat (bitlen n))" by linarith
  moreover have "pow2 (bitlen n) = of_int (2 ^ nat (bitlen n))" using k by (intro pow2_nat) simp
  ultimately have hi: "x < pow2 (expo x + 1)" unfolding e by simp
  show ?thesis using lo hi by simp
next
  case False
  define y where "y = 1 / x"
  have y: "1 < y" unfolding y_def using False assms by simp
  define n where "n = \<lceil>y\<rceil>"
  have n2: "2 \<le> n" unfolding n_def using y by linarith
  then have n1: "0 < n - 1" by simp
  define k where "k = bitlen (n - 1)"
  have b: "2 ^ nat (k - 1) \<le> n - 1" "n - 1 < 2 ^ nat k" using bitlen_bounds [OF n1] unfolding k_def by auto
  have k1: "1 \<le> k" unfolding k_def using n1 by (simp add: bitlen_alt_def)
  have e: "expo x = - k" using False by (simp add: expo_def n_def y_def k_def)
  have yn: "y \<le> of_int n" "of_int (n - 1) < y" unfolding n_def by linarith+
  have "n \<le> 2 ^ nat k" using b(2) by simp
  then have "real_of_int n \<le> of_int (2 ^ nat k)" by (simp only: of_int_le_iff)
  moreover have pk: "pow2 k = of_int (2 ^ nat k)" using k1 by (intro pow2_nat) simp
  ultimately have "y \<le> pow2 k" using yn(1) by linarith
  then have "1 / pow2 k \<le> 1 / y" using y by (simp add: frac_le)
  moreover have xy: "1 / y = x" by (simp add: y_def)
  ultimately have lo: "pow2 (- k) \<le> x" by (simp add: pow2_minus)
  have "real_of_int (2 ^ nat (k - 1)) \<le> of_int (n - 1)" using b(1) by (simp only: of_int_le_iff)
  moreover have "pow2 (k - 1) = of_int (2 ^ nat (k - 1))" using k1 by (intro pow2_nat) simp
  ultimately have "pow2 (k - 1) < y" using yn(2) by linarith
  then have "1 / y < 1 / pow2 (k - 1)" by (simp add: frac_less2)
  moreover have "pow2 (- k + 1) = 1 / pow2 (k - 1)" using pow2_minus [of "k - 1"] by simp
  ultimately have hi: "x < pow2 (- k + 1)" using xy by simp
  show ?thesis using lo hi e by simp
qed

lemma expo_unique:
  assumes "pow2 e \<le> x" "x < pow2 (e + 1)"
  shows "expo x = e"
proof -
  have x: "0 < x" using assms(1) pow2_pos [of e] by linarith
  have b: "pow2 (expo x) \<le> x" "x < pow2 (expo x + 1)" using expo_bounds [OF x] by auto
  have "pow2 e < pow2 (expo x + 1)" using assms(1) b(2) by linarith
  then have "e < expo x + 1" by (simp add: pow2_less_iff)
  moreover have "pow2 (expo x) < pow2 (e + 1)" using assms(2) b(1) by linarith
  then have "expo x < e + 1" by (simp add: pow2_less_iff)
  ultimately show ?thesis by simp
qed

lemma expo_mono:
  assumes "0 < x" "x \<le> y"
  shows "expo x \<le> expo y"
proof -
  have "pow2 (expo x) \<le> x" using expo_bounds [OF assms(1)] by simp
  moreover have "y < pow2 (expo y + 1)" using expo_bounds [of y] assms by simp
  ultimately have "pow2 (expo x) < pow2 (expo y + 1)" using assms(2) by linarith
  then show ?thesis by (simp add: pow2_less_iff)
qed

lemma rne_int [simp]: "rne (of_int n) = n"
  by (simp add: rne_def)

lemma rne_floor_le: "\<lfloor>x\<rfloor> \<le> rne x"
  by (simp add: rne_def Let_def)

lemma rne_le_floor: "rne x \<le> \<lfloor>x\<rfloor> + 1"
  by (simp add: rne_def Let_def)

lemma rne_mono:
  assumes "x \<le> y"
  shows "rne x \<le> rne y"
proof (cases "\<lfloor>x\<rfloor> = \<lfloor>y\<rfloor>")
  case True
  have "x - of_int \<lfloor>x\<rfloor> \<le> y - of_int \<lfloor>y\<rfloor>" using assms True by simp
  then show ?thesis using True by (auto simp: rne_def Let_def)
next
  case False
  have "\<lfloor>x\<rfloor> \<le> \<lfloor>y\<rfloor>" using assms by (rule floor_mono)
  then have "\<lfloor>x\<rfloor> + 1 \<le> \<lfloor>y\<rfloor>" using False by simp
  then show ?thesis using rne_le_floor [of x] rne_floor_le [of y] by linarith
qed

lemma rne_nonneg: "0 \<le> x \<Longrightarrow> 0 \<le> rne x"
  using rne_mono [of 0 x] rne_int [of 0] by simp

lemma pow2_int: "0 \<le> e \<Longrightarrow> \<exists>n. pow2 e = of_int n"
  using pow2_nat by blast

lemma scaled_upper:
  assumes "x \<le> pow2 u" "q \<le> u"
  shows "of_int (rne (x / pow2 q)) * pow2 q \<le> pow2 u"
proof -
  obtain n where n: "pow2 (u - q) = of_int n" using pow2_int [of "u - q"] assms(2) by auto
  have "x / pow2 q \<le> pow2 u / pow2 q" using assms(1) by (intro divide_right_mono) simp_all
  then have "x / pow2 q \<le> of_int n" using n by (simp add: pow2_diff)
  then have "rne (x / pow2 q) \<le> n" using rne_mono [of "x / pow2 q" "of_int n"] by simp
  then have "real_of_int (rne (x / pow2 q)) \<le> of_int n" by (simp only: of_int_le_iff)
  then have "of_int (rne (x / pow2 q)) * pow2 q \<le> of_int n * pow2 q"
    by (simp add: mult_right_mono)
  also have "\<dots> = pow2 u" using n [symmetric] by (simp add: pow2_diff)
  finally show ?thesis .
qed

lemma scaled_lower:
  assumes "pow2 l \<le> x" "q \<le> l"
  shows "pow2 l \<le> of_int (rne (x / pow2 q)) * pow2 q"
proof -
  obtain n where n: "pow2 (l - q) = of_int n" using pow2_int [of "l - q"] assms(2) by auto
  have "pow2 l / pow2 q \<le> x / pow2 q" using assms(1) by (intro divide_right_mono) simp_all
  then have "of_int n \<le> x / pow2 q" using n by (simp add: pow2_diff)
  then have "n \<le> rne (x / pow2 q)" using rne_mono [of "of_int n" "x / pow2 q"] by simp
  then have "real_of_int n \<le> of_int (rne (x / pow2 q))" by (simp only: of_int_le_iff)
  then have "of_int n * pow2 q \<le> of_int (rne (x / pow2 q)) * pow2 q"
    by (simp add: mult_right_mono)
  moreover have "of_int n * pow2 q = pow2 l" using n [symmetric] by (simp add: pow2_diff)
  ultimately show ?thesis by simp
qed

lemma fl_zero [simp]: "fl 0 = 0"
  by (simp add: fl_def)

lemma fl_minus: "fl (- x) = - fl x"
  by (simp add: fl_def Let_def sgn_minus)

lemma fl_pos:
  "0 < x \<Longrightarrow> fl x = of_int (rne (x / pow2 (max (expo x - 52) (- 1074)))) * pow2 (max (expo x - 52) (- 1074))"
  by (simp add: fl_def Let_def)

lemma fl_nonneg:
  assumes "0 \<le> x"
  shows "0 \<le> fl x"
proof (cases "x = 0")
  case True
  then show ?thesis by simp
next
  case False
  then have x: "0 < x" using assms by simp
  have "0 \<le> rne (x / pow2 (max (expo x - 52) (- 1074)))" using x by (intro rne_nonneg) simp
  then show ?thesis unfolding fl_pos [OF x] by simp
qed

lemma fl_mono_pos:
  assumes "0 < x" "x \<le> y"
  shows "fl x \<le> fl y"
proof -
  have y: "0 < y" using assms by simp
  define qx where "qx = max (expo x - 52) (- 1074)"
  define qy where "qy = max (expo y - 52) (- 1074)"
  have e: "expo x \<le> expo y" using assms by (rule expo_mono)
  then have q: "qx \<le> qy" unfolding qx_def qy_def by simp
  have fx: "fl x = of_int (rne (x / pow2 qx)) * pow2 qx" unfolding qx_def by (rule fl_pos [OF assms(1)])
  have fy: "fl y = of_int (rne (y / pow2 qy)) * pow2 qy" unfolding qy_def by (rule fl_pos [OF y])
  show ?thesis
  proof (cases "qx = qy")
    case True
    have "x / pow2 qy \<le> y / pow2 qy" using assms(2) by (intro divide_right_mono) simp_all
    then have "rne (x / pow2 qy) \<le> rne (y / pow2 qy)" by (rule rne_mono)
    then have "real_of_int (rne (x / pow2 qy)) \<le> of_int (rne (y / pow2 qy))" by (simp only: of_int_le_iff)
    then show ?thesis unfolding fx fy True by (simp add: mult_right_mono)
  next
    case False
    then have lt: "qx < qy" using q by simp
    then have qy': "qy = expo y - 52" unfolding qx_def qy_def by linarith
    have ex: "expo x + 1 \<le> expo y" using lt qy' unfolding qx_def by linarith
    have "x < pow2 (expo x + 1)" using expo_bounds [OF assms(1)] by simp
    also have "\<dots> \<le> pow2 (expo y)" using ex by (rule pow2_mono)
    finally have xu: "x \<le> pow2 (expo y)" by simp
    have "fl x \<le> pow2 (expo y)" unfolding fx by (rule scaled_upper [OF xu]) (use lt qy' in simp)
    moreover have "pow2 (expo y) \<le> fl y" unfolding fy
      by (rule scaled_lower) (use expo_bounds [OF y] qy' in simp_all)
    ultimately show ?thesis by simp
  qed
qed

lemma fl_mono:
  assumes "x \<le> y"
  shows "fl x \<le> fl y"
proof -
  consider "0 < x" | "x \<le> 0" "0 \<le> y" | "y < 0" by linarith
  then show ?thesis
  proof cases
    case 1
    then show ?thesis using assms by (rule fl_mono_pos)
  next
    case 2
    have "fl x \<le> 0" using fl_nonneg [of "- x"] 2(1) by (simp add: fl_minus)
    moreover have "0 \<le> fl y" using 2(2) by (rule fl_nonneg)
    ultimately show ?thesis by simp
  next
    case 3
    have "fl (- y) \<le> fl (- x)" using 3 assms by (intro fl_mono_pos) simp_all
    then show ?thesis by (simp add: fl_minus)
  qed
qed

lemma fl_exact:
  assumes "x = of_int m * pow2 k" "\<bar>m\<bar> < 2 ^ 53" "- 1074 \<le> k"
  shows "fl x = x"
proof (cases "x = 0")
  case True
  then show ?thesis by simp
next
  case False
  then have ax: "0 < \<bar>x\<bar>" by simp
  define q where "q = max (expo \<bar>x\<bar> - 52) (- 1074)"
  have axm: "\<bar>x\<bar> = of_int \<bar>m\<bar> * pow2 k" using assms(1) by (simp add: abs_mult)
  have "real_of_int \<bar>m\<bar> < of_int (2 ^ 53)" using assms(2) by (simp only: of_int_less_iff)
  then have "of_int \<bar>m\<bar> * pow2 k < of_int (2 ^ 53) * pow2 k" by (simp add: mult_strict_right_mono)
  also have "\<dots> = pow2 (53 + k)"
  proof -
    have "pow2 53 = of_int (2 ^ 53)" by (simp add: pow2_def)
    then show ?thesis unfolding pow2_add by simp
  qed
  finally have "\<bar>x\<bar> < pow2 (53 + k)" using axm by simp
  moreover have "pow2 (expo \<bar>x\<bar>) \<le> \<bar>x\<bar>" using expo_bounds [OF ax] by simp
  ultimately have "pow2 (expo \<bar>x\<bar>) < pow2 (53 + k)" by linarith
  then have "expo \<bar>x\<bar> < 53 + k" by (simp add: pow2_less_iff)
  then have qk: "q \<le> k" unfolding q_def using assms(3) by simp
  have pk: "pow2 (k - q) = of_int (2 ^ nat (k - q))" using qk by (intro pow2_nat) simp
  have "\<bar>x\<bar> / pow2 q = of_int \<bar>m\<bar> * (pow2 k / pow2 q)" unfolding axm by simp
  also have "\<dots> = of_int \<bar>m\<bar> * of_int (2 ^ nat (k - q))" using pk by (simp only: pow2_diff)
  also have "\<dots> = of_int (\<bar>m\<bar> * 2 ^ nat (k - q))" by simp
  finally have "\<bar>x\<bar> / pow2 q = of_int (\<bar>m\<bar> * 2 ^ nat (k - q))" .
  then have "rne (\<bar>x\<bar> / pow2 q) = \<bar>m\<bar> * 2 ^ nat (k - q)" by (simp only: rne_int)
  then have "of_int (rne (\<bar>x\<bar> / pow2 q)) * pow2 q = \<bar>x\<bar> / pow2 q * pow2 q"
    using \<open>\<bar>x\<bar> / pow2 q = of_int (\<bar>m\<bar> * 2 ^ nat (k - q))\<close> by simp
  also have "\<dots> = \<bar>x\<bar>" by simp
  finally have "fl x = sgn x * \<bar>x\<bar>" unfolding fl_def Let_def q_def by simp
  then show ?thesis by (simp add: sgn_mult_abs)
qed

lemma fl_pow2: "- 1074 \<le> k \<Longrightarrow> fl (pow2 k) = pow2 k"
  using fl_exact [of "pow2 k" 1 k] by simp

lemma fl_int: "\<bar>n\<bar> \<le> 2 ^ 53 \<Longrightarrow> fl (of_int n) = of_int n"
proof (cases "\<bar>n\<bar> < 2 ^ 53")
  case True
  then show ?thesis using fl_exact [of "of_int n" n 0] by simp
next
  case False
  assume "\<bar>n\<bar> \<le> 2 ^ 53"
  then have "n = 2 ^ 53 \<or> n = - (2 ^ 53)" using False by linarith
  then show ?thesis
  proof
    assume "n = 2 ^ 53"
    then have "real_of_int n = of_int 1 * pow2 53" by (simp add: pow2_def)
    then show ?thesis by (rule fl_exact) simp_all
  next
    assume "n = - (2 ^ 53)"
    then have "real_of_int n = of_int (- 1) * pow2 53" by (simp add: pow2_def)
    then show ?thesis by (rule fl_exact) simp_all
  qed
qed

lemma fl_abs_le:
  assumes "\<bar>x\<bar> \<le> pow2 k" "- 1074 \<le> k"
  shows "\<bar>fl x\<bar> \<le> pow2 k"
proof -
  have "fl x \<le> fl (pow2 k)" using assms(1) by (intro fl_mono) simp
  moreover have "fl (- pow2 k) \<le> fl x" using assms(1) by (intro fl_mono) simp
  ultimately show ?thesis using fl_pow2 [OF assms(2)] by (simp add: fl_minus abs_le_iff)
qed

section \<open>\<open>getIoU\<close> in double precision\<close>

text \<open>While nothing overflows, every operation of \<open>getIoU\<close> gives a finite double.\<close>

lemma to_double_finite:
  assumes "\<bar>r\<bar> \<le> pow2 k" "k \<le> 1023" "- 1074 \<le> k"
  shows "to_double r = Finite (fl r)"
proof -
  have "\<bar>fl r\<bar> \<le> pow2 k" using assms(1,3) by (rule fl_abs_le)
  also have "pow2 k \<le> pow2 1023" using assms(2) by (rule pow2_mono)
  also have "pow2 1023 < 2 ^ 1024" by (simp add: pow2_def)
  finally have "\<bar>fl r\<bar> < 2 ^ 1024" .
  then have "\<not> 2 ^ 1024 \<le> fl r" "\<not> fl r \<le> - (2 ^ 1024)" by linarith+
  then show ?thesis by (simp add: to_double_def Let_def)
qed

lemma pow2_Suc: "pow2 (k + 1) = 2 * pow2 k"
proof -
  have "pow2 1 = 2" by (simp add: pow2_def)
  then show ?thesis by (simp add: pow2_add)
qed

lemma bd_add: "\<bar>a\<bar> \<le> pow2 k \<Longrightarrow> \<bar>b\<bar> \<le> pow2 k \<Longrightarrow> \<bar>a + b\<bar> \<le> pow2 (k + 1)"
  unfolding pow2_Suc by linarith

lemma bd_sub: "\<bar>a\<bar> \<le> pow2 k \<Longrightarrow> \<bar>b\<bar> \<le> pow2 k \<Longrightarrow> \<bar>a - b\<bar> \<le> pow2 (k + 1)"
  unfolding pow2_Suc by linarith

lemma bd_mul: "\<bar>a\<bar> \<le> pow2 j \<Longrightarrow> \<bar>b\<bar> \<le> pow2 k \<Longrightarrow> \<bar>a * b\<bar> \<le> pow2 (j + k)"
  unfolding pow2_add abs_mult by (rule mult_mono) simp_all

lemma bd_max: "\<bar>a\<bar> \<le> c \<Longrightarrow> \<bar>b\<bar> \<le> c \<Longrightarrow> \<bar>max a b\<bar> \<le> (c::real)"
  by (simp add: max_def)

lemma bd_min: "\<bar>a\<bar> \<le> c \<Longrightarrow> \<bar>b\<bar> \<le> c \<Longrightarrow> \<bar>min a b\<bar> \<le> (c::real)"
  by (simp add: min_def)

lemma bd_max0: "\<bar>a\<bar> \<le> c \<Longrightarrow> \<bar>max 0 a\<bar> \<le> (c::real)"
  using abs_ge_zero [of a] by (auto simp: max_def)

lemma bd_up: "\<bar>a\<bar> \<le> pow2 j \<Longrightarrow> j \<le> k \<Longrightarrow> \<bar>a\<bar> \<le> pow2 k"
  using pow2_mono [of j k] by linarith

lemma getIoU_double_moderate:
  assumes a: "moderate_box a" and b: "moderate_box b"
  shows "getIoU_double a b =
     (if denom_fl a b = 0 then Finite 0 else to_double (inter_fl a b / denom_fl a b))"
proof -
  have xa: "\<bar>box_x a\<bar> \<le> pow2 500" and ya: "\<bar>box_y a\<bar> \<le> pow2 500"
    and wa: "\<bar>box_width a\<bar> \<le> pow2 500" and ha: "\<bar>box_height a\<bar> \<le> pow2 500"
    using a by (simp_all add: moderate_box_def moderate_def)
  have xb: "\<bar>box_x b\<bar> \<le> pow2 500" and yb: "\<bar>box_y b\<bar> \<le> pow2 500"
    and wb: "\<bar>box_width b\<bar> \<le> pow2 500" and hb: "\<bar>box_height b\<bar> \<le> pow2 500"
    using b by (simp_all add: moderate_box_def moderate_def)
  define X2 where "X2 = min (fl (box_x a + box_width a)) (fl (box_x b + box_width b))"
  define Y2 where "Y2 = min (fl (box_y a + box_height a)) (fl (box_y b + box_height b))"
  define X1 where "X1 = max (box_x a) (box_x b)"
  define Y1 where "Y1 = max (box_y a) (box_y b)"
  define DX where "DX = max 0 (fl (X2 - X1))"
  define DY where "DY = max 0 (fl (Y2 - Y1))"
  define A1 where "A1 = fl (box_width a * box_height a)"
  define A2 where "A2 = fl (box_width b * box_height b)"
  have sxa: "\<bar>box_x a + box_width a\<bar> \<le> pow2 501" using bd_add [OF xa wa] by simp
  have sxb: "\<bar>box_x b + box_width b\<bar> \<le> pow2 501" using bd_add [OF xb wb] by simp
  have sya: "\<bar>box_y a + box_height a\<bar> \<le> pow2 501" using bd_add [OF ya ha] by simp
  have syb: "\<bar>box_y b + box_height b\<bar> \<le> pow2 501" using bd_add [OF yb hb] by simp
  have t1: "to_double (box_x a + box_width a) = Finite (fl (box_x a + box_width a))"
       "to_double (box_x b + box_width b) = Finite (fl (box_x b + box_width b))"
       "to_double (box_y a + box_height a) = Finite (fl (box_y a + box_height a))"
       "to_double (box_y b + box_height b) = Finite (fl (box_y b + box_height b))"
    using to_double_finite [OF sxa] to_double_finite [OF sxb] to_double_finite [OF sya]
      to_double_finite [OF syb] by simp_all
  have x1: "d_max (Finite (box_x a)) (Finite (box_x b)) = Finite X1" by (simp add: X1_def)
  have y1: "d_max (Finite (box_y a)) (Finite (box_y b)) = Finite Y1" by (simp add: Y1_def)
  have x2: "d_min (d_add (Finite (box_x a)) (Finite (box_width a)))
                  (d_add (Finite (box_x b)) (Finite (box_width b))) = Finite X2"
    by (simp add: t1 X2_def)
  have y2: "d_min (d_add (Finite (box_y a)) (Finite (box_height a)))
                  (d_add (Finite (box_y b)) (Finite (box_height b))) = Finite Y2"
    by (simp add: t1 Y2_def)
  have bX2: "\<bar>X2\<bar> \<le> pow2 501" unfolding X2_def
    by (intro bd_min fl_abs_le sxa sxb) simp_all
  have bY2: "\<bar>Y2\<bar> \<le> pow2 501" unfolding Y2_def
    by (intro bd_min fl_abs_le sya syb) simp_all
  have bX1: "\<bar>X1\<bar> \<le> pow2 501" unfolding X1_def
    by (intro bd_max bd_up [OF xa] bd_up [OF xb]) simp_all
  have bY1: "\<bar>Y1\<bar> \<le> pow2 501" unfolding Y1_def
    by (intro bd_max bd_up [OF ya] bd_up [OF yb]) simp_all
  have dX: "\<bar>X2 - X1\<bar> \<le> pow2 502" using bd_sub [OF bX2 bX1] by simp
  have dY: "\<bar>Y2 - Y1\<bar> \<le> pow2 502" using bd_sub [OF bY2 bY1] by simp
  have dx: "d_max (Finite 0) (d_sub (Finite X2) (Finite X1)) = Finite DX"
    using to_double_finite [OF dX] by (simp add: d_sub_def DX_def)
  have dy: "d_max (Finite 0) (d_sub (Finite Y2) (Finite Y1)) = Finite DY"
    using to_double_finite [OF dY] by (simp add: d_sub_def DY_def)
  have bDX: "\<bar>DX\<bar> \<le> pow2 502" unfolding DX_def by (intro bd_max0 fl_abs_le dX) simp
  have bDY: "\<bar>DY\<bar> \<le> pow2 502" unfolding DY_def by (intro bd_max0 fl_abs_le dY) simp
  have pI: "\<bar>DX * DY\<bar> \<le> pow2 1004" using bd_mul [OF bDX bDY] by simp
  have I: "inter_fl a b = fl (DX * DY)"
    by (simp add: inter_fl_def DX_def DY_def X2_def Y2_def X1_def Y1_def)
  have ia: "d_mul (Finite DX) (Finite DY) = Finite (inter_fl a b)"
    using to_double_finite [OF pI] by (simp add: I)
  have bI: "\<bar>inter_fl a b\<bar> \<le> pow2 1004" unfolding I by (intro fl_abs_le pI) simp
  have pa: "\<bar>box_width a * box_height a\<bar> \<le> pow2 1000" using bd_mul [OF wa ha] by simp
  have pb: "\<bar>box_width b * box_height b\<bar> \<le> pow2 1000" using bd_mul [OF wb hb] by simp
  have a1: "d_mul (Finite (box_width a)) (Finite (box_height a)) = Finite A1"
    using to_double_finite [OF pa] by (simp add: A1_def)
  have a2: "d_mul (Finite (box_width b)) (Finite (box_height b)) = Finite A2"
    using to_double_finite [OF pb] by (simp add: A2_def)
  have bA1: "\<bar>A1\<bar> \<le> pow2 1000" unfolding A1_def by (intro fl_abs_le pa) simp
  have bA2: "\<bar>A2\<bar> \<le> pow2 1000" unfolding A2_def by (intro fl_abs_le pb) simp
  have sA: "\<bar>A1 + A2\<bar> \<le> pow2 1001" using bd_add [OF bA1 bA2] by simp
  have bS: "\<bar>fl (A1 + A2)\<bar> \<le> pow2 1004" by (intro bd_up [OF fl_abs_le [OF sA]]) simp_all
  have dD: "\<bar>fl (A1 + A2) - inter_fl a b\<bar> \<le> pow2 1005" using bd_sub [OF bS bI] by simp
  have dn: "d_sub (d_add (Finite A1) (Finite A2)) (Finite (inter_fl a b)) = Finite (denom_fl a b)"
    using to_double_finite [OF sA] to_double_finite [OF dD]
    by (simp add: d_sub_def denom_fl_def A1_def A2_def)
  show ?thesis
    unfolding getIoU_double_def Let_def x1 y1 x2 y2 dx dy ia a1 a2 dn by simp
qed

text \<open>
  Rounding is monotone, so that boxes an axis separates, and boxes without area, have
  the rounded intersection area 0.
\<close>

lemma gap_zero:
  assumes "u \<le> v"
  shows "max 0 (fl (u - v)) = 0"
proof -
  have "fl (u - v) \<le> fl 0" using assms by (intro fl_mono) simp
  then show ?thesis by simp
qed

lemma inter_fl_zero_x:
  assumes "min (fl (box_x a + box_width a)) (fl (box_x b + box_width b)) \<le> max (box_x a) (box_x b)"
  shows "inter_fl a b = 0"
  unfolding inter_fl_def gap_zero [OF assms] by simp

lemma inter_fl_zero_y:
  assumes "min (fl (box_y a + box_height a)) (fl (box_y b + box_height b)) \<le> max (box_y a) (box_y b)"
  shows "inter_fl a b = 0"
  unfolding inter_fl_def gap_zero [OF assms] by simp

lemma fl_le_double:
  assumes "s \<le> p" "fl p = p"
  shows "fl s \<le> p"
  using fl_mono [OF assms(1)] assms(2) by simp

lemma inter_fl_no_overlap:
  assumes a: "moderate_box a" and b: "moderate_box b" and n: "no_overlap a b"
  shows "inter_fl a b = 0"
proof -
  have fa: "fl (box_x a) = box_x a" "fl (box_y a) = box_y a"
    using a by (simp_all add: moderate_box_def moderate_def)
  have fb: "fl (box_x b) = box_x b" "fl (box_y b) = box_y b"
    using b by (simp_all add: moderate_box_def moderate_def)
  consider "box_x a + box_width a \<le> box_x b" | "box_x b + box_width b \<le> box_x a"
    | "box_y a + box_height a \<le> box_y b" | "box_y b + box_height b \<le> box_y a"
    using n unfolding no_overlap_def by blast
  then show ?thesis
  proof cases
    case 1
    then have "fl (box_x a + box_width a) \<le> box_x b" using fb(1) by (rule fl_le_double)
    then show ?thesis by (intro inter_fl_zero_x) (simp add: min_def max_def)
  next
    case 2
    then have "fl (box_x b + box_width b) \<le> box_x a" using fa(1) by (rule fl_le_double)
    then show ?thesis by (intro inter_fl_zero_x) (simp add: min_def max_def)
  next
    case 3
    then have "fl (box_y a + box_height a) \<le> box_y b" using fb(2) by (rule fl_le_double)
    then show ?thesis by (intro inter_fl_zero_y) (simp add: min_def max_def)
  next
    case 4
    then have "fl (box_y b + box_height b) \<le> box_y a" using fa(2) by (rule fl_le_double)
    then show ?thesis by (intro inter_fl_zero_y) (simp add: min_def max_def)
  qed
qed

lemma inter_fl_zero_area:
  assumes a: "moderate_box a" and z: "area a = 0"
  shows "inter_fl a b = 0"
proof -
  have fa: "fl (box_x a) = box_x a" "fl (box_y a) = box_y a"
    using a by (simp_all add: moderate_box_def moderate_def)
  have "box_width a = 0 \<or> box_height a = 0" using z by (simp add: area_def)
  then show ?thesis
  proof
    assume "box_width a = 0"
    then have "fl (box_x a + box_width a) = box_x a" using fa(1) by simp
    then show ?thesis by (intro inter_fl_zero_x) (simp add: min_def max_def)
  next
    assume "box_height a = 0"
    then have "fl (box_y a + box_height a) = box_y a" using fa(2) by simp
    then show ?thesis by (intro inter_fl_zero_y) (simp add: min_def max_def)
  qed
qed

lemma getIoU_double_zero_inter:
  assumes "moderate_box a" "moderate_box b" "inter_fl a b = 0"
  shows "getIoU_double a b = Finite 0"
proof -
  have "to_double 0 = Finite 0" using to_double_finite [of 0 0] by simp
  then show ?thesis unfolding getIoU_double_moderate [OF assms(1,2)] assms(3) by simp
qed

text \<open>
  On boxes of whole numbers every sum, difference and product is exact, and the result
  is the exact intersection over union, rounded once.
\<close>

lemma whole_int:
  assumes "whole v"
  obtains n :: int where "v = of_int n" "\<bar>n\<bar> \<le> 2 ^ 24"
proof -
  define n where "n = \<lfloor>v\<rfloor>"
  have v: "v = of_int n" using assms unfolding whole_def n_def by (simp only: )
  have "\<bar>v\<bar> \<le> 2 ^ 24" using assms unfolding whole_def by (simp only: )
  then have "\<bar>real_of_int n\<bar> \<le> of_int (2 ^ 24)" using v by simp
  then have "\<bar>n\<bar> \<le> 2 ^ 24" by (simp only: of_int_abs [symmetric] of_int_le_iff)
  then show ?thesis using v that by blast
qed

lemma whole_moderate: "whole v \<Longrightarrow> moderate v"
proof -
  assume w: "whole v"
  then obtain n :: int where n: "v = of_int n" "\<bar>n\<bar> \<le> 2 ^ 24" by (rule whole_int)
  have "fl v = v" unfolding n(1) by (rule fl_int) (use n(2) in simp)
  moreover have "\<bar>v\<bar> \<le> 2 ^ 24" using w by (simp add: whole_def)
  moreover have "(2::real) ^ 24 \<le> pow2 500" by (simp add: pow2_def)
  ultimately show ?thesis unfolding moderate_def by linarith
qed

lemma whole_moderate_box: "whole_box b \<Longrightarrow> moderate_box b"
  by (simp add: whole_box_def moderate_box_def whole_moderate)

lemma int_prod_bound:
  fixes p q :: int
  assumes "\<bar>p\<bar> \<le> P" "\<bar>q\<bar> \<le> Q"
  shows "\<bar>p * q\<bar> \<le> P * Q"
  unfolding abs_mult using assms by (intro mult_mono) simp_all

lemma int_gap_bound:
  fixes p q r s c :: int
  assumes "\<bar>p\<bar> \<le> c" "\<bar>q\<bar> \<le> c" "\<bar>r\<bar> \<le> c" "\<bar>s\<bar> \<le> c"
  shows "\<bar>min (p + q) (r + s) - max p r\<bar> \<le> 4 * c"
  using assms by linarith

lemma fl_int_sum:
  fixes p q :: int
  assumes "\<bar>p\<bar> \<le> 2 ^ 24" "\<bar>q\<bar> \<le> 2 ^ 24"
  shows "fl (of_int (p + q)) = of_int (p + q)"
proof (rule fl_int)
  have "\<bar>p + q\<bar> \<le> \<bar>p\<bar> + \<bar>q\<bar>" by (rule abs_triangle_ineq)
  also have "\<dots> \<le> 2 ^ 24 + 2 ^ 24" using assms by (rule add_mono)
  also have "\<dots> \<le> (2::int) ^ 53" by simp
  finally show "\<bar>p + q\<bar> \<le> 2 ^ 53" .
qed

lemma whole_values:
  assumes a: "whole_box a" and b: "whole_box b"
  shows "\<exists>I D :: int. inter_fl a b = of_int I \<and> denom_fl a b = of_int D \<and>
           getIoU a b = (if D = 0 then 0 else of_int I / of_int D) \<and> \<bar>I\<bar> \<le> 2 ^ 52"
proof -
  obtain xa where xa: "box_x a = of_int xa" "\<bar>xa\<bar> \<le> 2 ^ 24"
    using a whole_int [of "box_x a"] by (auto simp: whole_box_def)
  obtain ya where ya: "box_y a = of_int ya" "\<bar>ya\<bar> \<le> 2 ^ 24"
    using a whole_int [of "box_y a"] by (auto simp: whole_box_def)
  obtain wa where wa: "box_width a = of_int wa" "\<bar>wa\<bar> \<le> 2 ^ 24"
    using a whole_int [of "box_width a"] by (auto simp: whole_box_def)
  obtain ha where ha: "box_height a = of_int ha" "\<bar>ha\<bar> \<le> 2 ^ 24"
    using a whole_int [of "box_height a"] by (auto simp: whole_box_def)
  obtain xb where xb: "box_x b = of_int xb" "\<bar>xb\<bar> \<le> 2 ^ 24"
    using b whole_int [of "box_x b"] by (auto simp: whole_box_def)
  obtain yb where yb: "box_y b = of_int yb" "\<bar>yb\<bar> \<le> 2 ^ 24"
    using b whole_int [of "box_y b"] by (auto simp: whole_box_def)
  obtain wb where wb: "box_width b = of_int wb" "\<bar>wb\<bar> \<le> 2 ^ 24"
    using b whole_int [of "box_width b"] by (auto simp: whole_box_def)
  obtain hb where hb: "box_height b = of_int hb" "\<bar>hb\<bar> \<le> 2 ^ 24"
    using b whole_int [of "box_height b"] by (auto simp: whole_box_def)
  define X2 where "X2 = min (xa + wa) (xb + wb)"
  define Y2 where "Y2 = min (ya + ha) (yb + hb)"
  define X1 where "X1 = max xa xb"
  define Y1 where "Y1 = max ya yb"
  define DX where "DX = max 0 (X2 - X1)"
  define DY where "DY = max 0 (Y2 - Y1)"
  define I where "I = DX * DY"
  define D where "D = wa * ha + wb * hb - I"
  have bX: "\<bar>X2 - X1\<bar> \<le> 2 ^ 26" unfolding X2_def X1_def
    using int_gap_bound [OF xa(2) wa(2) xb(2) wb(2)] by simp
  have bY: "\<bar>Y2 - Y1\<bar> \<le> 2 ^ 26" unfolding Y2_def Y1_def
    using int_gap_bound [OF ya(2) ha(2) yb(2) hb(2)] by simp
  have bDX: "\<bar>DX\<bar> \<le> 2 ^ 26" unfolding DX_def using bX by linarith
  have bDY: "\<bar>DY\<bar> \<le> 2 ^ 26" unfolding DY_def using bY by linarith
  have bI: "\<bar>I\<bar> \<le> 2 ^ 52" unfolding I_def using int_prod_bound [OF bDX bDY] by simp
  have bA1: "\<bar>wa * ha\<bar> \<le> 2 ^ 48" using int_prod_bound [OF wa(2) ha(2)] by simp
  have bA2: "\<bar>wb * hb\<bar> \<le> 2 ^ 48" using int_prod_bound [OF wb(2) hb(2)] by simp
  have f1: "fl (of_int (xa + wa)) = of_int (xa + wa)" "fl (of_int (xb + wb)) = of_int (xb + wb)"
       "fl (of_int (ya + ha)) = of_int (ya + ha)" "fl (of_int (yb + hb)) = of_int (yb + hb)"
    by (rule fl_int_sum, fact, fact)+
  have f2: "fl (of_int (X2 - X1)) = of_int (X2 - X1)" "fl (of_int (Y2 - Y1)) = of_int (Y2 - Y1)"
    using bX bY by (intro fl_int; simp)+
  have f3: "fl (of_int I) = of_int I" using bI by (intro fl_int) simp
  have f4: "fl (of_int (wa * ha)) = of_int (wa * ha)" "fl (of_int (wb * hb)) = of_int (wb * hb)"
    using bA1 bA2 by (intro fl_int; simp)+
  have f5: "fl (of_int (wa * ha + wb * hb)) = of_int (wa * ha + wb * hb)"
    using bA1 bA2 by (intro fl_int) simp
  have f6: "fl (of_int D) = of_int D" unfolding D_def using bA1 bA2 bI by (intro fl_int) simp
  have i: "inter_fl a b = of_int I"
  proof -
    have "inter_fl a b =
        fl (max 0 (fl (min (fl (of_int (xa + wa))) (fl (of_int (xb + wb))) - of_int X1))
            * max 0 (fl (min (fl (of_int (ya + ha))) (fl (of_int (yb + hb))) - of_int Y1)))"
      by (simp add: inter_fl_def xa ya wa ha xb yb wb hb X1_def Y1_def of_int_max)
    also have "\<dots> = fl (max 0 (fl (of_int (X2 - X1))) * max 0 (fl (of_int (Y2 - Y1))))"
      unfolding f1 by (simp add: X2_def Y2_def of_int_min)
    also have "\<dots> = fl (of_int I)"
      unfolding f2 by (simp add: I_def DX_def DY_def of_int_max)
    finally show ?thesis using f3 by simp
  qed
  have d: "denom_fl a b = of_int D"
  proof -
    have "denom_fl a b = fl (fl (fl (of_int (wa * ha)) + fl (of_int (wb * hb))) - of_int I)"
      by (simp add: denom_fl_def i wa ha wb hb)
    also have "\<dots> = fl (fl (of_int (wa * ha + wb * hb)) - of_int I)" unfolding f4 by simp
    also have "\<dots> = fl (of_int D)" unfolding f5 by (simp add: D_def)
    finally show ?thesis using f6 by simp
  qed
  have g: "getIoU a b = (if D = 0 then 0 else of_int I / of_int D)"
  proof -
    have I': "real_of_int I = max 0 (min (box_x a + box_width a) (box_x b + box_width b) - max (box_x a) (box_x b))
        * max 0 (min (box_y a + box_height a) (box_y b + box_height b) - max (box_y a) (box_y b))"
      by (simp add: I_def DX_def DY_def X2_def Y2_def X1_def Y1_def xa ya wa ha xb yb wb hb
          of_int_max of_int_min)
    have D': "real_of_int D = box_width a * box_height a + box_width b * box_height b - of_int I"
      by (simp add: D_def wa ha wb hb)
    have z: "(real_of_int D = 0) = (D = 0)" by simp
    show ?thesis unfolding getIoU_def Let_def I' [symmetric] D' [symmetric] z ..
  qed
  show ?thesis using i d g bI by blast
qed

lemma getIoU_double_whole:
  assumes a: "whole_box a" and b: "whole_box b"
  shows "getIoU_double a b = Finite (fl (getIoU a b))"
proof -
  obtain I D :: int where v: "inter_fl a b = of_int I" "denom_fl a b = of_int D"
      "getIoU a b = (if D = 0 then 0 else of_int I / of_int D)" "\<bar>I\<bar> \<le> 2 ^ 52"
    using whole_values [OF a b] by blast
  have m: "moderate_box a" "moderate_box b" using a b by (simp_all add: whole_moderate_box)
  show ?thesis
  proof (cases "D = 0")
    case True
    then show ?thesis unfolding getIoU_double_moderate [OF m] v by simp
  next
    case False
    then have "1 \<le> \<bar>D\<bar>" by simp
    then have D1: "1 \<le> \<bar>real_of_int D\<bar>" by (simp only: of_int_abs [symmetric] of_int_1_le_iff)
    have "\<bar>real_of_int I\<bar> \<le> of_int (2 ^ 52)" using v(4) by (simp only: of_int_abs [symmetric] of_int_le_iff)
    then have I52: "\<bar>real_of_int I\<bar> \<le> pow2 52" by (simp add: pow2_def)
    have "\<bar>real_of_int I / of_int D\<bar> = \<bar>real_of_int I\<bar> / \<bar>real_of_int D\<bar>" by (simp only: abs_divide)
    also have "\<dots> \<le> \<bar>real_of_int I\<bar> / 1" using D1 by (intro divide_left_mono) simp_all
    finally have "\<bar>real_of_int I / of_int D\<bar> \<le> pow2 52" using I52 by simp
    then have "to_double (of_int I / of_int D) = Finite (fl (of_int I / of_int D))"
      by (rule to_double_finite) simp_all
    then show ?thesis unfolding getIoU_double_moderate [OF m] v using False by simp
  qed
qed

text \<open>Rounding a given number: the nearest multiple of the last bit, the even one on a tie.\<close>

lemma rne_near:
  assumes "\<bar>t - of_int m\<bar> < 1 / 2"
  shows "rne t = m"
proof (cases "of_int m \<le> t")
  case True
  then have f: "\<lfloor>t\<rfloor> = m" using assms by (intro floor_unique) (simp_all add: abs_if split: if_splits)
  show ?thesis unfolding rne_def Let_def f using assms True by (simp add: abs_if split: if_splits)
next
  case False
  then have f: "\<lfloor>t\<rfloor> = m - 1" using assms by (intro floor_unique) (simp_all add: abs_if split: if_splits)
  show ?thesis unfolding rne_def Let_def f using assms False by (simp add: abs_if split: if_splits)
qed

lemma rne_tie:
  assumes "t = of_int m + 1 / 2"
  shows "rne t = (if even m then m else m + 1)"
proof -
  have f: "\<lfloor>t\<rfloor> = m" unfolding assms by (intro floor_unique) simp_all
  show ?thesis unfolding rne_def Let_def f by (simp add: assms)
qed

lemma fl_normal:
  assumes "pow2 e \<le> x" "x < pow2 (e + 1)" "- 1022 \<le> e"
  shows "fl x = of_int (rne (x / pow2 (e - 52))) * pow2 (e - 52)"
proof -
  have x: "0 < x" using assms(1) pow2_pos [of e] by linarith
  have "expo x = e" using assms(1,2) by (rule expo_unique)
  then have "max (expo x - 52) (- 1074) = e - 52" using assms(3) by simp
  then show ?thesis using fl_pos [OF x] by simp
qed

lemma fl_nearest:
  assumes "pow2 e \<le> x" "x < pow2 (e + 1)" "- 1022 \<le> e" "\<bar>x / pow2 (e - 52) - of_int m\<bar> < 1 / 2"
  shows "fl x = of_int m * pow2 (e - 52)"
  unfolding fl_normal [OF assms(1,2,3)] rne_near [OF assms(4)] ..

lemma fl_tie:
  assumes "pow2 e \<le> x" "x < pow2 (e + 1)" "- 1022 \<le> e" "x / pow2 (e - 52) = of_int m + 1 / 2"
  shows "fl x = of_int (if even m then m else m + 1) * pow2 (e - 52)"
  unfolding fl_normal [OF assms(1,2,3)] rne_tie [OF assms(4)] ..

lemma moderate_tenth:
  "moderate_box \<lparr>box_x = 3602879701896397 / 36028797018963968, box_y = 0,
        box_width = 3602879701896397 / 18014398509481984, box_height = 1\<rparr>"
proof -
  have "fl (3602879701896397 / 36028797018963968) = 3602879701896397 / 36028797018963968"
    by (rule fl_exact [where m = 3602879701896397 and k = "- 55"]) (simp_all add: pow2_def)
  moreover have "fl (3602879701896397 / 18014398509481984) = 3602879701896397 / 18014398509481984"
    by (rule fl_exact [where m = 3602879701896397 and k = "- 54"]) (simp_all add: pow2_def)
  moreover have "fl 1 = 1" using fl_int [of 1] by simp
  ultimately show ?thesis by (simp add: moderate_box_def moderate_def pow2_def)
qed

text \<open>
  Claim C8, as stated: for rectangles of positive width and height \<open>iou(a, b)\<close> lies in
  \<open>[0, 1]\<close> and \<open>iou(a, a) = 1\<close>. The doubles of the source compute the width of the
  intersection of \<open>a\<close> with itself as \<open>(x + width) - x\<close>, which rounding can make
  larger than \<open>width\<close>: for the box of the doubles nearest to \<open>x = 0.1\<close> and
  \<open>width = 0.2\<close>, with \<open>y = 0\<close> and \<open>height = 1\<close>, \<open>getIoU(a, a)\<close> is
  \<open>1 + 2\<^sup>-\<^sup>5\<^sup>2\<close>, that is \<open>1.0000000000000002\<close>.
\<close>

theorem getIoU_double_counterexample:
  "getIoU_double
     \<lparr>box_x = 3602879701896397 / 36028797018963968, box_y = 0,
        box_width = 3602879701896397 / 18014398509481984, box_height = 1\<rparr>
     \<lparr>box_x = 3602879701896397 / 36028797018963968, box_y = 0,
        box_width = 3602879701896397 / 18014398509481984, box_height = 1\<rparr>
   = Finite (4503599627370497 / 4503599627370496) \<and>
   (1 :: real) < 4503599627370497 / 4503599627370496"
proof -
  define X :: real where "X = 3602879701896397 / 36028797018963968"
  define W :: real where "W = 3602879701896397 / 18014398509481984"
  define A :: real where "A = 1351079888211149 / 4503599627370496"
  define B :: real where "B = 7205759403792795 / 36028797018963968"
  define C :: real where "C = 3602879701896397 / 9007199254740992"
  define E :: real where "E = 7205759403792793 / 36028797018963968"
  define a where "a = \<lparr>box_x = X, box_y = 0, box_width = W, box_height = 1\<rparr>"
  have fX: "fl X = X"
    by (rule fl_exact [where m = 3602879701896397 and k = "- 55"]) (simp_all add: X_def pow2_def)
  have fW: "fl W = W"
    by (rule fl_exact [where m = 3602879701896397 and k = "- 54"]) (simp_all add: W_def pow2_def)
  have f1: "fl 1 = 1" using fl_int [of 1] by simp
  have r1: "fl (X + W) = A"
    using fl_tie [where x = "X + W" and e = "- 2" and m = 5404319552844595]
    by (simp add: X_def W_def A_def pow2_def)
  have r2: "fl (A - X) = B"
    using fl_exact [where x = "A - X" and m = 7205759403792795 and k = "- 55"]
    by (simp add: X_def A_def B_def pow2_def)
  have fB: "fl B = B"
    by (rule fl_exact [where m = 7205759403792795 and k = "- 55"]) (simp_all add: B_def pow2_def)
  have r6: "fl (W + W) = C"
    using fl_exact [where x = "W + W" and m = 3602879701896397 and k = "- 53"]
    by (simp add: W_def C_def pow2_def)
  have r6': "fl (2 * W) = C" using r6 by simp
  have r7: "fl (C - B) = E"
    using fl_exact [where x = "C - B" and m = 7205759403792793 and k = "- 55"]
    by (simp add: C_def B_def E_def pow2_def)
  have r8: "fl (B / E) = 4503599627370497 / 4503599627370496"
    using fl_nearest [where x = "B / E" and e = 0 and m = 4503599627370497]
    by (simp add: B_def E_def pow2_def)
  have mB: "max 0 B = B" by (simp add: B_def)
  have i: "inter_fl a a = B" by (simp add: inter_fl_def a_def r1 r2 f1 fB mB)
  have d: "denom_fl a a = E" by (simp add: denom_fl_def i) (simp add: a_def fW r6 r6' r7)
  have m: "moderate_box a"
    by (simp add: moderate_box_def moderate_def a_def fX fW f1) (simp add: X_def W_def pow2_def)
  have E0: "E \<noteq> 0" by (simp add: E_def)
  have "to_double (B / E) = Finite (fl (B / E))"
    by (rule to_double_finite [where k = 1]) (simp_all add: B_def E_def pow2_def)
  then have "getIoU_double a a = Finite (4503599627370497 / 4503599627370496)"
    unfolding getIoU_double_moderate [OF m m] i d using E0 r8 by simp
  then show ?thesis by (simp add: a_def X_def W_def)
qed

text \<open>
  Claim C8, amended. In the statement \<open>getIoU_double\<close> is the value the source
  computes and \<open>getIoU\<close> the exact intersection over union. For rectangles whose
  fields are doubles of magnitude at most \<open>2\<^sup>5\<^sup>0\<^sup>0\<close> (nothing overflows), the source
  returns 0 for any two rectangles with no overlap, and 0 when both boxes have zero
  area; no branch raises an error. For rectangles whose coordinates and sizes are whole
  numbers of magnitude at most \<open>2\<^sup>2\<^sup>4\<close> the result is the exact intersection over union
  rounded to the nearest double: it lies in \<open>[0, 1]\<close> for positive widths and heights,
  and it is 1 for a rectangle and itself. For other rectangles rounding moves the
  result, and the range and the value 1 are not promised.
\<close>

theorem getIoU_double_properties:
  "(moderate_box a \<and> moderate_box b \<and> no_overlap a b \<longrightarrow> getIoU_double a b = Finite 0) \<and>
   (moderate_box a \<and> moderate_box b \<and> area a = 0 \<and> area b = 0 \<longrightarrow> getIoU_double a b = Finite 0) \<and>
   (whole_box a \<and> whole_box b \<longrightarrow> getIoU_double a b = Finite (fl (getIoU a b))) \<and>
   (whole_box a \<and> whole_box b \<and> 0 < box_width a \<and> 0 < box_height a \<and>
      0 < box_width b \<and> 0 < box_height b \<longrightarrow>
      getIoU_double a b = Finite (fl (getIoU a b)) \<and>
      0 \<le> fl (getIoU a b) \<and> fl (getIoU a b) \<le> 1) \<and>
   (whole_box a \<and> 0 < box_width a \<and> 0 < box_height a \<longrightarrow> getIoU_double a a = Finite 1)"
proof -
  have p1: "getIoU_double a b = Finite 0" if "moderate_box a \<and> moderate_box b \<and> no_overlap a b"
    using that by (intro getIoU_double_zero_inter inter_fl_no_overlap) simp_all
  have p2: "getIoU_double a b = Finite 0"
    if "moderate_box a \<and> moderate_box b \<and> area a = 0 \<and> area b = 0"
    using that by (intro getIoU_double_zero_inter inter_fl_zero_area) simp_all
  have p3: "getIoU_double a b = Finite (fl (getIoU a b))" if "whole_box a \<and> whole_box b"
    using that by (intro getIoU_double_whole) simp_all
  have f01: "fl 0 = 0" "fl 1 = 1" using fl_int [of 1] by simp_all
  have p4: "0 \<le> fl (getIoU a b) \<and> fl (getIoU a b) \<le> 1"
    if "0 < box_width a \<and> 0 < box_height a \<and> 0 < box_width b \<and> 0 < box_height b"
    using getIoU_range [of a b] that fl_mono [of 0 "getIoU a b"] fl_mono [of "getIoU a b" 1] f01
    by simp
  have p5: "getIoU_double a a = Finite 1" if "whole_box a \<and> 0 < box_width a \<and> 0 < box_height a"
    using getIoU_double_whole [of a a] getIoU_self [of a] that f01 by simp
  show ?thesis using p1 p2 p3 p4 p5 by blast
qed

theorem getIoU_double_properties_witness:
  "getIoU_double
     \<lparr>box_x = 3602879701896397 / 36028797018963968, box_y = 0,
        box_width = 3602879701896397 / 18014398509481984, box_height = 1\<rparr>
     \<lparr>box_x = 1, box_y = 0, box_width = 3, box_height = 1\<rparr> = Finite 0 \<and>
   getIoU_double \<lparr>box_x = 0, box_y = 0, box_width = 0, box_height = 4\<rparr>
                 \<lparr>box_x = 0, box_y = 1, box_width = 2, box_height = 0\<rparr> = Finite 0 \<and>
   getIoU_double \<lparr>box_x = 0, box_y = 0, box_width = 3, box_height = 1\<rparr>
                 \<lparr>box_x = 1, box_y = 0, box_width = 3, box_height = 1\<rparr>
     = Finite (fl (getIoU \<lparr>box_x = 0, box_y = 0, box_width = 3, box_height = 1\<rparr>
                          \<lparr>box_x = 1, box_y = 0, box_width = 3, box_height = 1\<rparr>)) \<and>
   fl (getIoU \<lparr>box_x = 0, box_y = 0, box_width = 3, box_height = 1\<rparr>
              \<lparr>box_x = 1, box_y = 0, box_width = 3, box_height = 1\<rparr>) \<le> 1 \<and>
   getIoU_double \<lparr>box_x = 0, box_y = 0, box_width = 3, box_height = 1\<rparr>
                 \<lparr>box_x = 0, box_y = 0, box_width = 3, box_height = 1\<rparr> = Finite 1"
  using
    getIoU_double_properties [of
      "\<lparr>box_x = 3602879701896397 / 36028797018963968, box_y = 0,
         box_width = 3602879701896397 / 18014398509481984, box_height = 1\<rparr>"
      "\<lparr>box_x = 1, box_y = 0, box_width = 3, box_height = 1\<rparr>"]
    getIoU_double_properties [of
      "\<lparr>box_x = 0, box_y = 0, box_width = 0, box_height = 4\<rparr>"
      "\<lparr>box_x = 0, box_y = 1, box_width = 2, box_height = 0\<rparr>"]
    getIoU_double_properties [of
      "\<lparr>box_x = 0, box_y = 0, box_width = 3, box_height = 1\<rparr>"
      "\<lparr>box_x = 1, box_y = 0, box_width = 3, box_height = 1\<rparr>"]
    moderate_tenth
    whole_moderate_box [of "\<lparr>box_x = 1, box_y = 0, box_width = 3, box_height = 1\<rparr>"]
    whole_moderate_box [of "\<lparr>box_x = 0, box_y = 0, box_width = 0, box_height = 4\<rparr>"]
    whole_moderate_box [of "\<lparr>box_x = 0, box_y = 1, box_width = 2, box_height = 0\<rparr>"]
  by (simp add: whole_box_def whole_def no_overlap_def area_def)

section \<open>Properties of the similarity scorers\<close>

text \<open>
  The scorers are followed in exact arithmetic here. In double precision the sums, the
  square roots and the division are rounded, so that the value of the source agrees
  with the exact one up to rounding only.
\<close>

lemma num_add_NaN [simp]: "num_add s NaN = NaN"
  by (cases s) simp_all

lemma num_mul_NaN [simp]: "num_mul s NaN = NaN"
  by (cases s) simp_all

text \<open>The accumulation loop: a sum while both arrays are read in range, \<open>NaN\<close> after.\<close>

lemma acc_loop:
  "foldl (\<lambda>s i. num_add s (num_mul (elem a i) (elem b i))) (Num 0) [0..<n]
     = (if n \<le> length a \<and> n \<le> length b then Num (\<Sum>i<n. a ! i * b ! i) else NaN)"
proof (induction n)
  case 0
  then show ?case by simp
next
  case (Suc n)
  show ?case
  proof (cases "n \<le> length a \<and> n \<le> length b")
    case True
    then show ?thesis using Suc by (auto simp: elem_def)
  next
    case False
    then show ?thesis using Suc by auto
  qed
qed

lemma computeCosineSimilarity_eq:
  "computeCosineSimilarity u v = (if length u \<le> length v then Num (dot u v) else NaN)"
  unfolding computeCosineSimilarity_def acc_loop dot_def by simp

lemma insight_components:
  "foldl (insight_step u v) (d, a, m) xs =
     (foldl (\<lambda>s i. num_add s (num_mul (elem u i) (elem v i))) d xs,
      foldl (\<lambda>s i. num_add s (num_mul (elem u i) (elem u i))) a xs,
      foldl (\<lambda>s i. num_add s (num_mul (elem v i) (elem v i))) m xs)"
  by (induction xs arbitrary: d a m) (simp_all add: insight_step_def)

lemma insight_sums_eq:
  "insight_sums u v =
     (if length u \<le> length v
      then (Num (dot u v), Num (dot u u), Num (\<Sum>i<length u. v ! i * v ! i))
      else (NaN, Num (dot u u), NaN))"
  unfolding insight_sums_def insight_components acc_loop dot_def by simp

lemma sum_sq_nonneg: "0 \<le> (\<Sum>i<n. (f i :: real) * f i)"
  by (rule sum_nonneg) simp

lemma dot_self_nonneg: "0 \<le> dot u u"
  unfolding dot_def by (rule sum_sq_nonneg)

lemma norm2_zero_iff: "norm2 u = 0 \<longleftrightarrow> dot u u = 0"
  unfolding norm2_def by simp

lemma norm2_nonneg: "0 \<le> norm2 u"
  unfolding norm2_def using dot_self_nonneg by simp

text \<open>The division of the InsightFace scorer never has a zero divisor.\<close>

lemma insight_divisor_nonzero:
  assumes "insight_sums u v = (d, n1, n2)" "n1 \<noteq> Num 0" "n2 \<noteq> Num 0"
  shows "num_mul (num_sqrt n1) (num_sqrt n2) \<noteq> Num 0"
proof (cases "length u \<le> length v")
  case True
  then have n: "n1 = Num (dot u u)" "n2 = Num (\<Sum>i<length u. v ! i * v ! i)"
    using assms(1) by (simp_all add: insight_sums_eq)
  have "0 \<le> dot u u" by (rule dot_self_nonneg)
  moreover have "0 \<le> (\<Sum>i<length u. v ! i * v ! i)" by (rule sum_sq_nonneg)
  ultimately show ?thesis using n assms(2,3) by simp
next
  case False
  then have "n2 = NaN" using assms(1) by (simp add: insight_sums_eq)
  then show ?thesis by simp
qed

text \<open>The Cauchy-Schwarz inequality for finite sums, by induction on the length.\<close>

lemma cauchy_schwarz_sum:
  fixes a b :: "nat \<Rightarrow> real"
  shows "(\<Sum>i<n. a i * b i)\<^sup>2 \<le> (\<Sum>i<n. a i * a i) * (\<Sum>i<n. b i * b i)"
proof (induction n)
  case 0
  then show ?case by simp
next
  case (Suc n)
  define s where "s = (\<Sum>i<n. a i * b i)"
  define A where "A = (\<Sum>i<n. a i * a i)"
  define B where "B = (\<Sum>i<n. b i * b i)"
  define x where "x = a n"
  define y where "y = b n"
  have A0: "0 \<le> A" unfolding A_def by (rule sum_sq_nonneg)
  have B0: "0 \<le> B" unfolding B_def by (rule sum_sq_nonneg)
  have IH: "s\<^sup>2 \<le> A * B" using Suc.IH unfolding s_def A_def B_def .
  have r0: "0 \<le> A * y\<^sup>2 + B * x\<^sup>2" using A0 B0 by simp
  have "(2 * s * x * y)\<^sup>2 = 4 * s\<^sup>2 * (x\<^sup>2 * y\<^sup>2)" by (simp add: power2_eq_square)
  also have "\<dots> \<le> 4 * (A * B) * (x\<^sup>2 * y\<^sup>2)"
    using IH by (intro mult_right_mono mult_left_mono) simp_all
  also have "\<dots> = 4 * (A * y\<^sup>2) * (B * x\<^sup>2)" by simp
  also have "\<dots> \<le> (A * y\<^sup>2 + B * x\<^sup>2)\<^sup>2"
  proof -
    have "0 \<le> (A * y\<^sup>2 - B * x\<^sup>2)\<^sup>2" by simp
    then show ?thesis by (simp add: power2_eq_square algebra_simps)
  qed
  finally have "2 * s * x * y \<le> A * y\<^sup>2 + B * x\<^sup>2" using r0 by (rule power2_le_imp_le)
  then have "(s + x * y)\<^sup>2 \<le> (A + x * x) * (B + y * y)"
    using IH by (simp add: power2_eq_square algebra_simps)
  then show ?case unfolding s_def A_def B_def x_def y_def by simp
qed

lemma cauchy_schwarz:
  assumes "length u = length v"
  shows "\<bar>dot u v\<bar> \<le> norm2 u * norm2 v"
proof -
  have "(dot u v)\<^sup>2 \<le> dot u u * dot v v"
    unfolding dot_def using cauchy_schwarz_sum [of "\<lambda>i. u ! i" "\<lambda>i. v ! i" "length u"] assms
    by simp
  then have "sqrt ((dot u v)\<^sup>2) \<le> sqrt (dot u u * dot v v)" by (rule real_sqrt_le_mono)
  then show ?thesis unfolding norm2_def by (simp add: real_sqrt_mult)
qed

lemma insight_cosine:
  assumes "length u = length v"
  shows "insight_computeCosineSimilarity u v = Num (cosine u v)"
proof -
  have "sqrt (dot u u) * sqrt (dot v v) \<noteq> 0" if "dot u u \<noteq> 0" "dot v v \<noteq> 0"
    using that by simp
  moreover have "(\<Sum>i<length u. v ! i * v ! i) = dot v v" using assms by (simp add: dot_def)
  ultimately show ?thesis
    unfolding insight_computeCosineSimilarity_def insight_sums_eq cosine_def norm2_zero_iff
    using dot_self_nonneg [of u] dot_self_nonneg [of v] assms
    by (simp add: norm2_def)
qed

lemma cosine_range:
  assumes "length u = length v"
  shows "- 1 \<le> cosine u v \<and> cosine u v \<le> 1"
proof (cases "norm2 u = 0 \<or> norm2 v = 0")
  case True
  then show ?thesis by (simp add: cosine_def)
next
  case False
  define q where "q = norm2 u * norm2 v"
  have p: "0 < q" unfolding q_def using False norm2_nonneg [of u] norm2_nonneg [of v] by simp
  have cs: "\<bar>dot u v\<bar> \<le> q" unfolding q_def by (rule cauchy_schwarz [OF assms])
  have "\<bar>dot u v / q\<bar> = \<bar>dot u v\<bar> / q" using p by (simp add: abs_divide)
  also have "\<dots> \<le> 1" using cs p by (simp add: divide_le_eq_1)
  finally have a: "\<bar>dot u v / q\<bar> \<le> 1" .
  have "- 1 \<le> dot u v / q \<and> dot u v / q \<le> 1"
    using a unfolding abs_le_iff by linarith
  then show ?thesis using False by (simp add: cosine_def q_def)
qed

lemma dot_zero_norm:
  assumes "length u = length v" "norm2 u = 0 \<or> norm2 v = 0"
  shows "dot u v = 0"
proof -
  have "\<bar>dot u v\<bar> \<le> 0" using cauchy_schwarz [OF assms(1)] assms(2) by auto
  then show ?thesis by simp
qed

lemma insight_take:
  assumes "length u \<le> length v"
  shows "insight_computeCosineSimilarity u v = insight_computeCosineSimilarity u (take (length u) v)"
  unfolding insight_computeCosineSimilarity_def insight_sums_eq
  using assms by (simp add: dot_def)

lemma insight_short:
  assumes "length v < length u"
  shows "insight_computeCosineSimilarity u v = (if dot u u = 0 then Num 0 else NaN)"
  unfolding insight_computeCosineSimilarity_def insight_sums_eq
  using assms by simp

text \<open>
  The lemmas above are about the two scorers in exact arithmetic. At the inputs of the
  next two statements every operation of the source is exact in double precision as
  well: the products, sums and the square root are small whole numbers.
\<close>

lemma insight_scorer_normalises: "insight_computeCosineSimilarity [2] [2] = Num 1"
  by (simp add: insight_cosine cosine_def norm2_def dot_def)

text \<open>
  Claim C2 says that for equal-length vectors the score computed by the matcher is the
  dot product over the product of the norms, hence in \<open>[-1, 1]\<close> also for inputs that
  are not of unit norm. The scorer of \<open>FaceRecognitionService\<close>, which the frame matcher
  calls and which its documentation calls the cosine similarity, returns the dot product
  itself: on \<open>[2]\<close> and \<open>[2]\<close> it gives 4, where the specification's score is 1, the
  value the scorer of \<open>InsightFaceService\<close> returns.
\<close>

theorem matcher_score_not_normalised:
  "computeCosineSimilarity [2] [2] = Num 4 \<and> cosine [2] [2] = 1 \<and>
   computeCosineSimilarity [2] [2] \<noteq> Num (cosine [2] [2])"
  by (simp add: computeCosineSimilarity_eq cosine_def norm2_def dot_def)

text \<open>
  Claim C4, as stated: on vectors of differing dimensionality the matching operation
  fails with an error and never truncates. Neither scorer has a failing branch: with a
  longer second vector the call returns the score of the truncated vector, with a shorter
  one it returns \<open>NaN\<close>.
\<close>

theorem mismatch_counterexample:
  "computeCosineSimilarity [1, 2] [1, 2, 3] = Num 5 \<and>
   computeCosineSimilarity [1, 2] [1, 2] = Num 5 \<and>
   computeCosineSimilarity [1, 2, 3] [1, 2] = NaN \<and>
   insight_computeCosineSimilarity [3, 4] [3, 4, 12] = Num 1"
proof -
  have "insight_computeCosineSimilarity [3, 4] [3, 4, 12] = insight_computeCosineSimilarity [3, 4] [3, 4]"
    using insight_take [of "[3, 4]" "[3, 4, 12]"] by simp
  also have "\<dots> = Num 1" by (simp add: insight_cosine cosine_def norm2_def dot_def)
  finally show ?thesis by (simp add: computeCosineSimilarity_eq dot_def)
qed

text \<open>
  Claim C4, amended. On vectors of differing dimensionality neither scorer raises an
  error; both read the indices of the first vector. When the second vector is longer,
  its components beyond the first vector's length are ignored: the result is the one for
  the second vector truncated. When the second vector is shorter, the scorer of
  \<open>FaceRecognitionService\<close> returns \<open>NaN\<close>, which the matcher's comparison rejects, so
  that the photo leaves the search state unchanged; the scorer of \<open>InsightFaceService\<close>
  returns \<open>NaN\<close> too, unless the first vector is zero, where it returns 0.
\<close>

theorem mismatch_amended:
  "(length u < length v \<longrightarrow>
      computeCosineSimilarity u v = Num (dot u (take (length u) v)) \<and>
      computeCosineSimilarity u v = computeCosineSimilarity u (take (length u) v) \<and>
      insight_computeCosineSimilarity u v = insight_computeCosineSimilarity u (take (length u) v)) \<and>
   (length v < length u \<longrightarrow>
      computeCosineSimilarity u v = NaN \<and>
      insight_computeCosineSimilarity u v = (if dot u u = 0 then Num 0 else NaN) \<and>
      tryPhoto u lab idx st v = st)"
proof -
  have a: "computeCosineSimilarity u v = Num (dot u (take (length u) v))"
      "computeCosineSimilarity u v = computeCosineSimilarity u (take (length u) v)"
      "insight_computeCosineSimilarity u v = insight_computeCosineSimilarity u (take (length u) v)"
    if "length u < length v"
    using that insight_take [of u v] by (simp_all add: computeCosineSimilarity_eq dot_def)
  have b: "computeCosineSimilarity u v = NaN"
      "insight_computeCosineSimilarity u v = (if dot u u = 0 then Num 0 else NaN)"
      "tryPhoto u lab idx st v = st"
    if "length v < length u"
    using that insight_short [of v u] by (simp_all add: computeCosineSimilarity_eq tryPhoto_def)
  show ?thesis using a b by blast
qed

theorem mismatch_amended_witness:
  "computeCosineSimilarity [1, 2] [1, 2, 3] = computeCosineSimilarity [1, 2] [1, 2] \<and>
   computeCosineSimilarity [1, 2, 3] [1, 2] = NaN \<and>
   tryPhoto [1, 2, 3] ''Ann'' 0 (- 1, None) [1, 2] = (- 1, None)"
  using mismatch_amended [of "[1, 2]" "[1, 2, 3]"] mismatch_amended [of "[1, 2, 3]" "[1, 2]" "''Ann''" 0 "(- 1, None)"]
  by (simp add: computeCosineSimilarity_eq dot_def)

section \<open>Properties of the frame matcher\<close>

text \<open>Whatever the scan of the pool returns as best entry is an entry of the pool.\<close>

lemma foldl_tryPhoto_ok:
  "(\<forall>l s i. snd st = Some (l, s, i) \<longrightarrow> P l i) \<Longrightarrow> P lab idx \<Longrightarrow>
   snd (foldl (tryPhoto d lab idx) st ps) = Some (l, s, i) \<Longrightarrow> P l i"
proof (induction ps arbitrary: st)
  case Nil
  then show ?case by simp
next
  case (Cons p ps)
  have "\<forall>l s i. snd (tryPhoto d lab idx st p) = Some (l, s, i) \<longrightarrow> P l i"
    using Cons.prems(1,2) by (auto simp: tryPhoto_def split: number.splits if_splits)
  then show ?case using Cons.IH [of "tryPhoto d lab idx st p"] Cons.prems(2,3) by simp
qed

lemma scanGallery_ok:
  "(\<forall>l s i. snd st = Some (l, s, i) \<longrightarrow> P l i) \<Longrightarrow>
   (\<forall>k < length rest. P (label (rest ! k)) (idx + k)) \<Longrightarrow>
   snd (scanGallery d idx rest st) = Some (l, s, i) \<Longrightarrow> P l i"
proof (induction rest arbitrary: idx st)
  case Nil
  then show ?case by simp
next
  case (Cons ld rest)
  let ?st = "foldl (tryPhoto d (label ld) idx) st (descriptors ld)"
  have here: "P (label ld) idx" using Cons.prems(2) by force
  have a: "\<forall>l s i. snd ?st = Some (l, s, i) \<longrightarrow> P l i"
    using foldl_tryPhoto_ok [where P = P, OF Cons.prems(1) here] by blast
  have b: "\<forall>k < length rest. P (label (rest ! k)) (Suc idx + k)"
  proof (intro allI impI)
    fix k assume "k < length rest"
    then have "Suc k < length (ld # rest)" by simp
    then have "P (label ((ld # rest) ! Suc k)) (idx + Suc k)" using Cons.prems(2) by blast
    then show "P (label (rest ! k)) (Suc idx + k)" by simp
  qed
  show ?case using Cons.IH [OF a b] Cons.prems(3) by simp
qed

lemma bestAmong_Some:
  assumes "bestAmong d available = Some (l, s, i)"
  shows "i < length available \<and> label (available ! i) = l"
proof -
  have "(\<lambda>l i. i < length available \<and> label (available ! i) = l) l i"
    by (rule scanGallery_ok [where st = "(- 1, None)" and idx = 0 and rest = available and d = d and s = s])
       (use assms in \<open>auto simp: bestAmong_def\<close>)
  then show ?thesis by simp
qed

lemma bestAmong_Nil: "bestAmong d [] = None"
  by (simp add: bestAmong_def)

lemma matchLoop_empty:
  "matchLoop [] used rs ds = (rs @ map (\<lambda>d. \<lparr>r_label = unknown, r_score = 0, r_descriptor = d\<rparr>) ds, used)"
  by (induction ds arbitrary: rs) (simp_all add: bestAmong_Nil)

lemma matchLoop_descriptors:
  "map r_descriptor (fst (matchLoop av used rs ds)) = map r_descriptor rs @ ds"
  by (induction ds arbitrary: av used rs) (auto split: option.splits)

lemma splice1_set: "set (splice1 i xs) \<subseteq> set xs"
  unfolding splice1_def using set_take_subset [of i xs] set_drop_subset [of "Suc i" xs] by auto

lemma matchLoop_labels:
  "set (map r_label (fst (matchLoop av used rs ds))) \<subseteq> set (map r_label rs) \<union> insert unknown (set (map label av))"
proof (induction ds arbitrary: av used rs)
  case Nil
  then show ?case by auto
next
  case (Cons d ds)
  show ?case
  proof (cases "bestAmong d av")
    case None
    then show ?thesis using Cons.IH [of av used "rs @ [\<lparr>r_label = unknown, r_score = 0, r_descriptor = d\<rparr>]"]
      by auto
  next
    case (Some b)
    obtain l s i where b: "b = (l, s, i)" by (cases b)
    have li: "i < length av" "label (av ! i) = l" using bestAmong_Some Some b by auto
    then have "l \<in> set (map label av)" by (metis length_map nth_map nth_mem)
    moreover have "set (map label (splice1 i av)) \<subseteq> set (map label av)"
      using splice1_set [of i av] by auto
    ultimately have sub: "set (map r_label (rs @ [\<lparr>r_label = l, r_score = s, r_descriptor = d\<rparr>]))
          \<union> insert unknown (set (map label (splice1 i av)))
        \<subseteq> set (map r_label rs) \<union> insert unknown (set (map label av))"
      by auto
    have "fst (matchLoop av used rs (d # ds)) =
        fst (matchLoop (splice1 i av) (insert l used) (rs @ [\<lparr>r_label = l, r_score = s, r_descriptor = d\<rparr>]) ds)"
      using Some b by simp
    then show ?thesis
      using Cons.IH [of "splice1 i av" "insert l used" "rs @ [\<lparr>r_label = l, r_score = s, r_descriptor = d\<rparr>]"] sub
      by (metis (no_types, lifting) subset_trans)
  qed
qed

lemma splice1_distinct:
  assumes "distinct xs" "i < length xs"
  shows "distinct (splice1 i xs) \<and> xs ! i \<notin> set (splice1 i xs)"
proof -
  have "xs = take i xs @ xs ! i # drop (Suc i) xs" using assms(2) by (rule id_take_nth_drop)
  then have "distinct (take i xs @ xs ! i # drop (Suc i) xs)" using assms(1) by simp
  then show ?thesis unfolding splice1_def by auto
qed

lemma map_splice1: "map f (splice1 i xs) = splice1 i (map f xs)"
  by (simp add: splice1_def take_map drop_map)

lemma matchedLabels_snoc:
  "matchedLabels (rs @ [r]) = matchedLabels rs @ (if r_label r \<noteq> unknown then [r_label r] else [])"
  by (simp add: matchedLabels_def)

text \<open>
  The invariant of the loop over the detections: the labels of the pool are distinct and
  unused, and the matched labels of the results are distinct, used, and outside the
  initial set.
\<close>

lemma matchLoop_one_to_one:
  assumes "distinct (map label av)" "set (map label av) \<inter> used = {}"
    "set (matchedLabels rs) \<subseteq> used" "distinct (matchedLabels rs)"
    "set (matchedLabels rs) \<inter> used0 = {}" "used0 \<subseteq> used"
  shows "distinct (matchedLabels (fst (matchLoop av used rs ds))) \<and>
         set (matchedLabels (fst (matchLoop av used rs ds))) \<inter> used0 = {}"
  using assms
proof (induction ds arbitrary: av used rs)
  case Nil
  then show ?case by simp
next
  case (Cons d ds)
  show ?case
  proof (cases "bestAmong d av")
    case None
    let ?r = "\<lparr>r_label = unknown, r_score = 0, r_descriptor = d\<rparr>"
    have m: "matchedLabels (rs @ [?r]) = matchedLabels rs" by (simp add: matchedLabels_snoc)
    have "distinct (matchedLabels (fst (matchLoop av used (rs @ [?r]) ds))) \<and>
         set (matchedLabels (fst (matchLoop av used (rs @ [?r]) ds))) \<inter> used0 = {}"
      by (rule Cons.IH) (use Cons.prems m in simp_all)
    then show ?thesis using None by simp
  next
    case (Some b)
    obtain l s i where b: "b = (l, s, i)" by (cases b)
    let ?r = "\<lparr>r_label = l, r_score = s, r_descriptor = d\<rparr>"
    have li: "i < length av" "label (av ! i) = l" using bestAmong_Some Some b by auto
    then have lin: "l \<in> set (map label av)" by (metis length_map nth_map nth_mem)
    then have lu: "l \<notin> used" using Cons.prems(2) by auto
    have sp: "distinct (splice1 i (map label av)) \<and> map label av ! i \<notin> set (splice1 i (map label av))"
      by (rule splice1_distinct) (use Cons.prems(1) li in simp_all)
    have p1: "distinct (map label (splice1 i av))" using sp by (simp add: map_splice1)
    have "l \<notin> set (map label (splice1 i av))" using sp li by (simp add: map_splice1)
    moreover have "set (map label (splice1 i av)) \<subseteq> set (map label av)"
      using splice1_set [of i av] by auto
    ultimately have p2: "set (map label (splice1 i av)) \<inter> insert l used = {}"
      using Cons.prems(2) by auto
    have m: "matchedLabels (rs @ [?r]) = matchedLabels rs @ (if l \<noteq> unknown then [l] else [])"
      by (simp add: matchedLabels_snoc)
    have p3: "set (matchedLabels (rs @ [?r])) \<subseteq> insert l used" using m Cons.prems(3) by auto
    have p4: "distinct (matchedLabels (rs @ [?r]))" using m Cons.prems(3,4) lu by auto
    have p5: "set (matchedLabels (rs @ [?r])) \<inter> used0 = {}" using m Cons.prems(5,6) lu by auto
    have p6: "used0 \<subseteq> insert l used" using Cons.prems(6) by auto
    have "distinct (matchedLabels (fst (matchLoop (splice1 i av) (insert l used) (rs @ [?r]) ds))) \<and>
         set (matchedLabels (fst (matchLoop (splice1 i av) (insert l used) (rs @ [?r]) ds))) \<inter> used0 = {}"
      by (rule Cons.IH [OF p1 p2 p3 p4 p5 p6])
    then show ?thesis using Some b by simp
  qed
qed

text \<open>
  Claim C1, as stated: for any list of detection embeddings, any gallery and any initial
  set of used labels, no two results carry the same label other than the sentinel, and
  no result carries a label of the initial set. The pool loses the matched entry only,
  so two gallery entries of the same name (the registry keeps students apart by id, not
  by name) are both matched in one frame; and the sentinel itself is given to an
  unmatched detection also when the initial set holds it.
\<close>

theorem one_to_one_counterexample:
  "map r_label (fst (findBestMatchesForFrame
      [\<lparr>label = ''Ann'', descriptors = [[1, 0]]\<rparr>, \<lparr>label = ''Ann'', descriptors = [[0, 1]]\<rparr>]
      [[1, 0], [0, 1]] {})) = [''Ann'', ''Ann''] \<and>
   \<not> distinct (matchedLabels (fst (findBestMatchesForFrame
      [\<lparr>label = ''Ann'', descriptors = [[1, 0]]\<rparr>, \<lparr>label = ''Ann'', descriptors = [[0, 1]]\<rparr>]
      [[1, 0], [0, 1]] {}))) \<and>
   map r_label (fst (findBestMatchesForFrame [] [[1, 0]] {''unknown''})) = [''unknown'']"
  by (simp add: findBestMatchesForFrame_def bestAmong_def tryPhoto_def computeCosineSimilarity_eq
      dot_def splice1_def matchedLabels_def unknown_def)

text \<open>
  Claim C1, amended. For any list of detection embeddings, any initial set of used labels
  and any gallery whose labels are pairwise distinct, no two results of
  \<open>findBestMatchesForFrame\<close> carry the same label other than the sentinel, and no result
  carries a label other than the sentinel that was in the initial set.
\<close>

theorem one_to_one_amended:
  "distinct (map label g) \<Longrightarrow>
     distinct (matchedLabels (fst (findBestMatchesForFrame g ds used))) \<and>
     set (matchedLabels (fst (findBestMatchesForFrame g ds used))) \<inter> used = {}"
  unfolding findBestMatchesForFrame_def
proof (rule matchLoop_one_to_one)
  assume d: "distinct (map label g)"
  show "distinct (map label (filter (\<lambda>ld. label ld \<notin> used) g))"
    using d by (rule distinct_map_filter)
  show "set (map label (filter (\<lambda>ld. label ld \<notin> used) g)) \<inter> used = {}" by auto
qed (simp_all add: matchedLabels_def)

theorem one_to_one_amended_witness:
  "distinct (map label [\<lparr>label = ''Ann'', descriptors = [[1, 0]]\<rparr>,
                        \<lparr>label = ''Bob'', descriptors = [[0, 1]]\<rparr>,
                        \<lparr>label = ''Carl'', descriptors = [[1, 1]]\<rparr>]) \<and>
   distinct (matchedLabels (fst (findBestMatchesForFrame
      [\<lparr>label = ''Ann'', descriptors = [[1, 0]]\<rparr>, \<lparr>label = ''Bob'', descriptors = [[0, 1]]\<rparr>,
       \<lparr>label = ''Carl'', descriptors = [[1, 1]]\<rparr>]
      [[1, 0], [1, 0]] {''Carl''}))) \<and>
   set (matchedLabels (fst (findBestMatchesForFrame
      [\<lparr>label = ''Ann'', descriptors = [[1, 0]]\<rparr>, \<lparr>label = ''Bob'', descriptors = [[0, 1]]\<rparr>,
       \<lparr>label = ''Carl'', descriptors = [[1, 1]]\<rparr>]
      [[1, 0], [1, 0]] {''Carl''}))) \<inter> {''Carl''} = {}"
  using one_to_one_amended [of
      "[\<lparr>label = ''Ann'', descriptors = [[1, 0]]\<rparr>, \<lparr>label = ''Bob'', descriptors = [[0, 1]]\<rparr>,
        \<lparr>label = ''Carl'', descriptors = [[1, 1]]\<rparr>]"
      "[[1, 0], [1, 0]]" "{''Carl''}"]
  by simp

text \<open>
  Claim C5. Against an empty gallery \<open>findBestMatchesForFrame\<close> returns one result per
  detection, each with the sentinel label (\<open>unknown\<close> in the source) and score 0, and
  \<open>InsightFaceService.findBestMatch\<close> returns the sentinel with score 0; both are total,
  no branch raises.
\<close>

theorem empty_gallery:
  "findBestMatchesForFrame [] ds used =
     (map (\<lambda>d. \<lparr>r_label = unknown, r_score = 0, r_descriptor = d\<rparr>) ds, used) \<and>
   insight_findBestMatch [] q = (unknown, 0)"
  by (simp add: findBestMatchesForFrame_def matchLoop_empty insight_findBestMatch_def)

text \<open>
  Claim C10. The result list of \<open>findBestMatchesForFrame\<close> has the length of the input,
  the \<open>i\<close>-th result carries the \<open>i\<close>-th input embedding, and every result is labelled
  with a gallery label or the sentinel.
\<close>

theorem one_result_per_detection:
  "length (fst (findBestMatchesForFrame g ds used)) = length ds \<and>
   map r_descriptor (fst (findBestMatchesForFrame g ds used)) = ds \<and>
   set (map r_label (fst (findBestMatchesForFrame g ds used))) \<subseteq> insert unknown (set (map label g))"
proof -
  let ?av = "filter (\<lambda>ld. label ld \<notin> used) g"
  have d: "map r_descriptor (fst (matchLoop ?av used [] ds)) = ds"
    using matchLoop_descriptors [of ?av used "[]" ds] by simp
  then have "length (map r_descriptor (fst (matchLoop ?av used [] ds))) = length ds" by simp
  then have l: "length (fst (matchLoop ?av used [] ds)) = length ds" by simp
  have "set (map r_label (fst (matchLoop ?av used [] ds))) \<subseteq> insert unknown (set (map label ?av))"
    using matchLoop_labels [of ?av used "[]" ds] by simp
  then have s: "set (map r_label (fst (matchLoop ?av used [] ds))) \<subseteq> insert unknown (set (map label g))"
    by auto
  show ?thesis unfolding findBestMatchesForFrame_def using d l s by blast
qed

theorem one_result_per_detection_witness:
  "map r_descriptor (fst (findBestMatchesForFrame
      [\<lparr>label = ''Ann'', descriptors = [[1, 0]]\<rparr>] [[1, 0], [0, 1]] {})) = [[1, 0], [0, 1]]"
  using one_result_per_detection [of "[\<lparr>label = ''Ann'', descriptors = [[1, 0]]\<rparr>]" "[[1, 0], [0, 1]]" "{}"]
  by simp

section \<open>Properties of the detection fusion\<close>

subsection \<open>Two overlapping detections\<close>

lemma dedup_pair:
  assumes "getIoU (det_box b) (det_box a) > t"
  shows "removeDuplicateDetections [a, b] t = [if det_score b > det_score a then b else a]"
  using assms by (simp add: removeDuplicateDetections_def)

lemma merge_pair:
  assumes "getIoU (det_box a) (det_box b) > 0.3"
  shows "mergeDetections [a] [b] = [if det_score b > det_score a then b else a]"
  using assms by (simp add: mergeDetections_def)

text \<open>
  In a longer list the detection is compared with the first accepted detection it
  overlaps, and the one of higher score takes that place.
\<close>

lemma scanFiltered_first_overlap:
  "\<forall>g\<in>set pre. getIoU (det_box d) (det_box g) \<le> t \<Longrightarrow> getIoU (det_box d) (det_box f) > t \<Longrightarrow>
   scanFiltered d t (pre @ f # post) = (False, pre @ (if det_score d > det_score f then d else f) # post)"
  by (induction pre) auto

lemma iou_half: "getIoU \<lparr>box_x = 0, box_y = 0, box_width = 3, box_height = 1\<rparr>
       \<lparr>box_x = 1, box_y = 0, box_width = 3, box_height = 1\<rparr> = 1 / 2"
  by (simp add: getIoU_def Let_def)

text \<open>
  Claim C6, as stated: whenever two detections overlap above the threshold, the one with
  strictly higher confidence replaces the other and the lower-confidence one is dropped.
  The deduplication compares a detection with the first accepted detection it overlaps
  and stops there: of three detections, the third (confidence 0.9) overlaps both accepted
  ones, takes the place of the first, and the second, which it overlaps with the lower
  confidence 0.4, stays in the result.
\<close>

theorem higher_confidence_counterexample:
  "removeDuplicateDetections
     [\<lparr>det_box = \<lparr>box_x = 0, box_y = 0, box_width = 3, box_height = 1\<rparr>, det_score = 0.5,
        det_descriptor = [], isManual = False, oid = 0\<rparr>,
      \<lparr>det_box = \<lparr>box_x = 4, box_y = 0, box_width = 3, box_height = 1\<rparr>, det_score = 0.4,
        det_descriptor = [], isManual = False, oid = 1\<rparr>,
      \<lparr>det_box = \<lparr>box_x = 1, box_y = 0, box_width = 5, box_height = 1\<rparr>, det_score = 0.9,
        det_descriptor = [], isManual = False, oid = 2\<rparr>] 0.3
   = [\<lparr>det_box = \<lparr>box_x = 1, box_y = 0, box_width = 5, box_height = 1\<rparr>, det_score = 0.9,
        det_descriptor = [], isManual = False, oid = 2\<rparr>,
      \<lparr>det_box = \<lparr>box_x = 4, box_y = 0, box_width = 3, box_height = 1\<rparr>, det_score = 0.4,
        det_descriptor = [], isManual = False, oid = 1\<rparr>] \<and>
   0.3 < getIoU \<lparr>box_x = 1, box_y = 0, box_width = 5, box_height = 1\<rparr>
                \<lparr>box_x = 4, box_y = 0, box_width = 3, box_height = 1\<rparr>"
  by (simp add: removeDuplicateDetections_def getIoU_def Let_def)

text \<open>
  The merge of the two passes scans the first pass, not the merged list: a candidate
  that overlaps a detection of the first pass already replaced is dropped, also when its
  confidence is the highest.
\<close>

lemma merge_drops_later_candidate:
  "mergeDetections
     [\<lparr>det_box = \<lparr>box_x = 0, box_y = 0, box_width = 3, box_height = 1\<rparr>, det_score = 0.4,
        det_descriptor = [], isManual = False, oid = 0\<rparr>]
     [\<lparr>det_box = \<lparr>box_x = 1, box_y = 0, box_width = 3, box_height = 1\<rparr>, det_score = 0.9,
        det_descriptor = [], isManual = False, oid = 1\<rparr>,
      \<lparr>det_box = \<lparr>box_x = 0, box_y = 0, box_width = 3, box_height = 1\<rparr>, det_score = 0.95,
        det_descriptor = [], isManual = False, oid = 2\<rparr>]
   = [\<lparr>det_box = \<lparr>box_x = 1, box_y = 0, box_width = 3, box_height = 1\<rparr>, det_score = 0.9,
        det_descriptor = [], isManual = False, oid = 1\<rparr>]"
  by (simp add: mergeDetections_def getIoU_def Let_def)

text \<open>
  Claim C6, amended. For a frame of exactly two detections \<open>a\<close> and \<open>b\<close> that overlap
  above the threshold, the fusion returns exactly one detection, the one of strictly
  higher confidence (the first on a tie), whether the two come from one detection pass
  or from the two passes; with \<open>iou = 0.5\<close>, confidences \<open>0.4\<close> and \<open>0.9\<close> and
  \<open>iouThreshold = 0.3\<close> it returns the detection of confidence \<open>0.9\<close>, in either order.
  In the deduplication of a longer list, a detection that overlaps an accepted detection
  above the threshold is compared with the first such accepted detection: the one of
  strictly higher confidence takes that place, the other is dropped, and the accepted
  detections after it are left as they are.
\<close>

theorem higher_confidence_amended:
  "(t < getIoU (det_box a) (det_box b) \<longrightarrow>
      removeDuplicateDetections [a, b] t = [if det_score b > det_score a then b else a] \<and>
      detectAndRecognize (Some [a, b]) None [] t = [if det_score b > det_score a then b else a]) \<and>
   (0.3 < getIoU (det_box a) (det_box b) \<longrightarrow>
      mergeDetections [a] [b] = [if det_score b > det_score a then b else a] \<and>
      detectAndRecognize (Some [a]) (Some [b]) [] t = [if det_score b > det_score a then b else a]) \<and>
   (getIoU (det_box a) (det_box b) = 0.5 \<and> det_score a = 0.4 \<and> det_score b = 0.9 \<longrightarrow>
      removeDuplicateDetections [a, b] 0.3 = [b] \<and> removeDuplicateDetections [b, a] 0.3 = [b] \<and>
      detectAndRecognize (Some [a]) (Some [b]) [] 0.3 = [b] \<and>
      detectAndRecognize (Some [b]) (Some [a]) [] 0.3 = [b]) \<and>
   ((\<forall>g\<in>set pre. getIoU (det_box d) (det_box g) \<le> t) \<and> t < getIoU (det_box d) (det_box f) \<longrightarrow>
      scanFiltered d t (pre @ f # post)
        = (False, pre @ (if det_score d > det_score f then d else f) # post) \<and>
      dedupLoop t (pre @ f # post) (d # ds)
        = dedupLoop t (pre @ (if det_score d > det_score f then d else f) # post) ds)"
proof -
  have s: "getIoU (det_box b) (det_box a) = getIoU (det_box a) (det_box b)" by (rule getIoU_sym)
  have p1: "removeDuplicateDetections [a, b] t = [if det_score b > det_score a then b else a]"
    if "t < getIoU (det_box a) (det_box b)"
    using that dedup_pair [of t b a] s by simp
  have p2: "mergeDetections [a] [b] = [if det_score b > det_score a then b else a]"
    if "0.3 < getIoU (det_box a) (det_box b)"
    using that by (rule merge_pair)
  have p3: "removeDuplicateDetections [a, b] 0.3 = [b] \<and> removeDuplicateDetections [b, a] 0.3 = [b] \<and>
      detectAndRecognize (Some [a]) (Some [b]) [] 0.3 = [b] \<and>
      detectAndRecognize (Some [b]) (Some [a]) [] 0.3 = [b]"
    if h: "getIoU (det_box a) (det_box b) = 0.5 \<and> det_score a = 0.4 \<and> det_score b = 0.9"
  proof -
    have o: "getIoU (det_box a) (det_box b) > 0.3" "getIoU (det_box b) (det_box a) > 0.3"
      using h s by simp_all
    show ?thesis
      using dedup_pair [OF o(2)] dedup_pair [OF o(1)] merge_pair [OF o(1)] merge_pair [OF o(2)] h
      by (simp add: detectAndRecognize_def removeDuplicateDetections_def)
  qed
  have p4: "scanFiltered d t (pre @ f # post)
        = (False, pre @ (if det_score d > det_score f then d else f) # post)"
    if "(\<forall>g\<in>set pre. getIoU (det_box d) (det_box g) \<le> t) \<and> t < getIoU (det_box d) (det_box f)"
    using that by (intro scanFiltered_first_overlap) simp_all
  have p5: "dedupLoop t (pre @ f # post) (d # ds)
        = dedupLoop t (pre @ (if det_score d > det_score f then d else f) # post) ds"
    if "(\<forall>g\<in>set pre. getIoU (det_box d) (det_box g) \<le> t) \<and> t < getIoU (det_box d) (det_box f)"
    using p4 [OF that] by simp
  have q1: "t < getIoU (det_box a) (det_box b) \<longrightarrow>
      removeDuplicateDetections [a, b] t = [if det_score b > det_score a then b else a] \<and>
      detectAndRecognize (Some [a, b]) None [] t = [if det_score b > det_score a then b else a]"
    using p1 by (simp add: detectAndRecognize_def)
  have q2: "0.3 < getIoU (det_box a) (det_box b) \<longrightarrow>
      mergeDetections [a] [b] = [if det_score b > det_score a then b else a] \<and>
      detectAndRecognize (Some [a]) (Some [b]) [] t = [if det_score b > det_score a then b else a]"
    using p2 by (simp add: detectAndRecognize_def removeDuplicateDetections_def)
  show ?thesis using q1 q2 p3 p4 p5 by blast
qed


theorem higher_confidence_amended_witness:
  "getIoU \<lparr>box_x = 0, box_y = 0, box_width = 3, box_height = 1\<rparr>
          \<lparr>box_x = 1, box_y = 0, box_width = 3, box_height = 1\<rparr> = 0.5 \<and>
   removeDuplicateDetections
     [\<lparr>det_box = \<lparr>box_x = 0, box_y = 0, box_width = 3, box_height = 1\<rparr>, det_score = 0.4,
        det_descriptor = [], isManual = False, oid = 0\<rparr>,
      \<lparr>det_box = \<lparr>box_x = 1, box_y = 0, box_width = 3, box_height = 1\<rparr>, det_score = 0.9,
        det_descriptor = [], isManual = False, oid = 1\<rparr>] 0.3
     = [\<lparr>det_box = \<lparr>box_x = 1, box_y = 0, box_width = 3, box_height = 1\<rparr>, det_score = 0.9,
        det_descriptor = [], isManual = False, oid = 1\<rparr>] \<and>
   removeDuplicateDetections
     [\<lparr>det_box = \<lparr>box_x = 1, box_y = 0, box_width = 3, box_height = 1\<rparr>, det_score = 0.9,
        det_descriptor = [], isManual = False, oid = 1\<rparr>,
      \<lparr>det_box = \<lparr>box_x = 0, box_y = 0, box_width = 3, box_height = 1\<rparr>, det_score = 0.4,
        det_descriptor = [], isManual = False, oid = 0\<rparr>] 0.3
     = [\<lparr>det_box = \<lparr>box_x = 1, box_y = 0, box_width = 3, box_height = 1\<rparr>, det_score = 0.9,
        det_descriptor = [], isManual = False, oid = 1\<rparr>] \<and>
   detectAndRecognize
     (Some [\<lparr>det_box = \<lparr>box_x = 0, box_y = 0, box_width = 3, box_height = 1\<rparr>, det_score = 0.4,
        det_descriptor = [], isManual = False, oid = 0\<rparr>])
     (Some [\<lparr>det_box = \<lparr>box_x = 1, box_y = 0, box_width = 3, box_height = 1\<rparr>, det_score = 0.9,
        det_descriptor = [], isManual = False, oid = 1\<rparr>]) [] 0.3
     = [\<lparr>det_box = \<lparr>box_x = 1, box_y = 0, box_width = 3, box_height = 1\<rparr>, det_score = 0.9,
        det_descriptor = [], isManual = False, oid = 1\<rparr>] \<and>
   scanFiltered
     \<lparr>det_box = \<lparr>box_x = 5, box_y = 0, box_width = 3, box_height = 1\<rparr>, det_score = 0.9,
        det_descriptor = [], isManual = False, oid = 2\<rparr> 0.3
     [\<lparr>det_box = \<lparr>box_x = 0, box_y = 0, box_width = 3, box_height = 1\<rparr>, det_score = 0.5,
        det_descriptor = [], isManual = False, oid = 0\<rparr>,
      \<lparr>det_box = \<lparr>box_x = 4, box_y = 0, box_width = 3, box_height = 1\<rparr>, det_score = 0.4,
        det_descriptor = [], isManual = False, oid = 1\<rparr>]
     = (False,
        [\<lparr>det_box = \<lparr>box_x = 0, box_y = 0, box_width = 3, box_height = 1\<rparr>, det_score = 0.5,
        det_descriptor = [], isManual = False, oid = 0\<rparr>,
         \<lparr>det_box = \<lparr>box_x = 5, box_y = 0, box_width = 3, box_height = 1\<rparr>, det_score = 0.9,
        det_descriptor = [], isManual = False, oid = 2\<rparr>])"
  using
    higher_confidence_amended [where t = "0.3"
      and a = "\<lparr>det_box = \<lparr>box_x = 0, box_y = 0, box_width = 3, box_height = 1\<rparr>, det_score = 0.4,
        det_descriptor = [], isManual = False, oid = 0\<rparr>"
      and b = "\<lparr>det_box = \<lparr>box_x = 1, box_y = 0, box_width = 3, box_height = 1\<rparr>, det_score = 0.9,
        det_descriptor = [], isManual = False, oid = 1\<rparr>"]
    higher_confidence_amended [where t = "0.3"
      and a = "\<lparr>det_box = \<lparr>box_x = 1, box_y = 0, box_width = 3, box_height = 1\<rparr>, det_score = 0.9,
        det_descriptor = [], isManual = False, oid = 1\<rparr>"
      and b = "\<lparr>det_box = \<lparr>box_x = 0, box_y = 0, box_width = 3, box_height = 1\<rparr>, det_score = 0.4,
        det_descriptor = [], isManual = False, oid = 0\<rparr>"]
    higher_confidence_amended [where t = "0.3"
      and pre = "[\<lparr>det_box = \<lparr>box_x = 0, box_y = 0, box_width = 3, box_height = 1\<rparr>, det_score = 0.5,
        det_descriptor = [], isManual = False, oid = 0\<rparr>]"
      and f = "\<lparr>det_box = \<lparr>box_x = 4, box_y = 0, box_width = 3, box_height = 1\<rparr>, det_score = 0.4,
        det_descriptor = [], isManual = False, oid = 1\<rparr>"
      and d = "\<lparr>det_box = \<lparr>box_x = 5, box_y = 0, box_width = 3, box_height = 1\<rparr>, det_score = 0.9,
        det_descriptor = [], isManual = False, oid = 2\<rparr>"
      and post = "[]"]
    iou_half
  by (simp add: getIoU_sym [of "\<lparr>box_x = 1, box_y = 0, box_width = 3, box_height = 1\<rparr>"
         "\<lparr>box_x = 0, box_y = 0, box_width = 3, box_height = 1\<rparr>"] getIoU_def Let_def)

subsection \<open>Fusing a list with itself\<close>











subsection \<open>Manual detections\<close>

text \<open>
  The earlier fusion of the repository keeps every manual detection.
\<close>

lemma finalDetections_keeps_manual:
  "set manualDetections \<subseteq> set (finalDetections resizedAutoDetections manualDetections)"
  by (simp add: finalDetections_def)

text \<open>
  Claim C3 says that every manual-origin detection appears in the fused output whatever
  the confidences. The fusion of \<open>detectAndRecognize\<close> appends the manual detections and
  deduplicates by confidence alone: a manual detection of confidence \<open>0.4\<close> that overlaps
  an automatic one of confidence \<open>0.9\<close> is dropped.
\<close>

theorem manual_detection_dropped:
  "detectAndRecognize
     (Some [\<lparr>det_box = \<lparr>box_x = 0, box_y = 0, box_width = 3, box_height = 1\<rparr>, det_score = 0.9,
        det_descriptor = [], isManual = False, oid = 0\<rparr>])
     (Some [])
     [\<lparr>det_box = \<lparr>box_x = 1, box_y = 0, box_width = 3, box_height = 1\<rparr>, det_score = 0.4,
        det_descriptor = [], isManual = True, oid = 1\<rparr>] 0.3
   = [\<lparr>det_box = \<lparr>box_x = 0, box_y = 0, box_width = 3, box_height = 1\<rparr>, det_score = 0.9,
        det_descriptor = [], isManual = False, oid = 0\<rparr>]"
  by (simp add: detectAndRecognize_def mergeDetections_def removeDuplicateDetections_def getIoU_def Let_def)

section \<open>Properties of the temporal aggregation\<close>

lemma push_full:
  "0 < N \<Longrightarrow> length window = N \<Longrightarrow> push N window f = tl window @ [f]"
  by (simp add: push_def)

lemma push_length:
  "0 < N \<Longrightarrow> length window \<le> N \<Longrightarrow> length (push N window f) \<le> N"
  by (auto simp: push_def)

lemma push_all:
  "0 < N \<Longrightarrow> length window \<le> N \<Longrightarrow>
   foldl (push N) window fs = drop (length window + length fs - N) (window @ fs)"
proof (induction fs arbitrary: window)
  case Nil
  then show ?case by simp
next
  case (Cons f fs)
  show ?case
  proof (cases "N \<le> length window")
    case True
    then have len: "length window = N" using Cons.prems(2) by simp
    then obtain w ws where w: "window = w # ws" using Cons.prems(1) by (cases window) auto
    have step: "push N window f = ws @ [f]" using True w by (simp add: push_def)
    have "foldl (push N) (ws @ [f]) fs
        = drop (length (ws @ [f]) + length fs - N) ((ws @ [f]) @ fs)"
      by (rule Cons.IH) (use Cons.prems(1) len w in auto)
    also have "\<dots> = drop (length fs) (ws @ f # fs)" using len w by simp
    also have "\<dots> = drop (length window + length (f # fs) - N) (window @ f # fs)"
      using len w by simp
    finally show ?thesis using step by simp
  next
    case False
    have step: "push N window f = window @ [f]" using False by (simp add: push_def)
    have "foldl (push N) (window @ [f]) fs
        = drop (length (window @ [f]) + length fs - N) ((window @ [f]) @ fs)"
      by (rule Cons.IH) (use Cons.prems(1) False in auto)
    then show ?thesis using step by simp
  qed
qed

text \<open>
  Claim C9. A push onto a full window of size \<open>N\<close> evicts exactly the oldest frame; after
  any pushes the window holds the last \<open>N\<close> frames; and after six frames are pushed into
  a window of size 5 the window, and with it every verdict and the count of unidentified
  results, is that of frames 2 to 6: frame 1 contributes nothing.
\<close>

theorem window_eviction:
  "(0 < N \<and> length window = N \<longrightarrow>
      push N window f = tl window @ [f] \<and> length (push N window f) = N) \<and>
   (0 < N \<longrightarrow> foldl (push N) [] fs = drop (length fs - N) fs) \<and>
   foldl (push 5) [] [f1, f2, f3, f4, f5, f6] = [f2, f3, f4, f5, f6] \<and>
   verdicts T labs (foldl (push 5) [] [f1, f2, f3, f4, f5, f6]) = verdicts T labs [f2, f3, f4, f5, f6] \<and>
   unidentified (foldl (push 5) [] [f1, f2, f3, f4, f5, f6]) = unidentified [f2, f3, f4, f5, f6]"
proof -
  have a: "push N window f = tl window @ [f] \<and> length (push N window f) = N"
    if "0 < N \<and> length window = N"
    using that by (auto simp: push_def)
  have b: "foldl (push N) [] fs = drop (length fs - N) fs" if "0 < N"
    using push_all [of N "[]" fs] that by simp
  have c: "foldl (push 5) [] [f1, f2, f3, f4, f5, f6] = [f2, f3, f4, f5, f6]"
    by (simp add: push_def)
  show ?thesis using a b c by simp
qed

theorem window_eviction_witness:
  "push 2 [[], [\<lparr>r_label = ''Ann'', r_score = 1, r_descriptor = [1]\<rparr>]] [] =
      [[\<lparr>r_label = ''Ann'', r_score = 1, r_descriptor = [1]\<rparr>], []] \<and>
   foldl (push 2) [] [[\<lparr>r_label = ''Ann'', r_score = 1, r_descriptor = [1]\<rparr>], [], []] = [[], []]"
  using window_eviction [of 2 "[[], [\<lparr>r_label = ''Ann'', r_score = 1, r_descriptor = [1]\<rparr>]]" "[]"
      "[[\<lparr>r_label = ''Ann'', r_score = 1, r_descriptor = [1]\<rparr>], [], []]"]
  by simp

end
